theory Spec2Isabelle
  imports Main
begin

section \<open>JavaScript values\<close>

text \<open>
  A JavaScript string is a sequence of UTF-16 code units. A code unit is modelled as a
  natural number (below 65536 in every string the program can hold), so that characters
  outside Latin-1 such as U+FFFD are ordinary elements. \<open>str\<close> embeds an ASCII literal
  of the source.
\<close>

type_synonym code_unit = nat
type_synonym jsstring = "code_unit list"

definition str :: "string \<Rightarrow> jsstring" where
  "str s = map of_char s"

text \<open>
  Numbers of the program are the integral ones (UIDs, status codes, return codes) and NaN.
  The model is exact on the safe integers, whose absolute value is at most
  \<open>2 ^ 53 - 1\<close>; beyond them JavaScript rounds to a double, which is not modelled.
\<close>

definition MAX_SAFE_INTEGER :: int where
  "MAX_SAFE_INTEGER = 9007199254740991"

text \<open>\<open>Number.prototype.toString()\<close> on an integer: its decimal digits, \<open>-\<close> first when negative.\<close>

fun digits_of :: "nat \<Rightarrow> jsstring" where
  "digits_of n = (if n < 10 then [48 + n] else digits_of (n div 10) @ [48 + n mod 10])"

declare digits_of.simps [simp del]

definition toString_int :: "int \<Rightarrow> jsstring" where
  "toString_int i = (if i < 0 then 45 # digits_of (nat (- i)) else digits_of (nat i))"

text \<open>The code units that \<open>String.prototype.trim\<close> removes: WhiteSpace and LineTerminator.\<close>

definition is_white_space :: "code_unit \<Rightarrow> bool" where
  "is_white_space c \<longleftrightarrow>
     c \<in> {9, 10, 11, 12, 13, 32, 160, 5760, 8232, 8233, 8239, 8287, 12288, 65279}
     \<or> (8192 \<le> c \<and> c \<le> 8202)"

definition trimStart :: "jsstring \<Rightarrow> jsstring" where
  "trimStart s = dropWhile is_white_space s"

definition trim :: "jsstring \<Rightarrow> jsstring" where
  "trim s = rev (dropWhile is_white_space (rev (dropWhile is_white_space s)))"

definition is_digit :: "code_unit \<Rightarrow> bool" where
  "is_digit c \<longleftrightarrow> 48 \<le> c \<and> c \<le> 57"

text \<open>
  A JavaScript value as far as the program handles one: the JSON values of a response and
  the primitives stored in cookies, parameters and bodies. An object is its list of
  properties in insertion order.
\<close>

datatype jsval =
    Undefined
  | Null
  | Bool bool
  | Num int
  | NaN
  | Str jsstring
  | Arr "jsval list"
  | Obj "(jsstring \<times> jsval) list"

text \<open>ToBoolean, as applied by \<open>if (v)\<close> and \<open>!v\<close>.\<close>

fun truthy :: "jsval \<Rightarrow> bool" where
  "truthy Undefined = False"
| "truthy Null = False"
| "truthy (Bool b) = b"
| "truthy (Num n) = (n \<noteq> 0)"
| "truthy NaN = False"
| "truthy (Str s) = (s \<noteq> [])"
| "truthy (Arr xs) = True"
| "truthy (Obj kvs) = True"

text \<open>
  \<open>o[k] = v\<close> on an object keeps the position of an existing property and appends a new
  one; \<open>{...a, ...b}\<close> assigns the properties of \<open>b\<close> in order onto a copy of \<open>a\<close>.
\<close>

fun obj_set :: "('k \<times> 'v) list \<Rightarrow> 'k \<Rightarrow> 'v \<Rightarrow> ('k \<times> 'v) list" where
  "obj_set [] k v = [(k, v)]"
| "obj_set ((k', v') # kvs) k v =
     (if k' = k then (k, v) # kvs else (k', v') # obj_set kvs k v)"

definition obj_spread :: "('k \<times> 'v) list \<Rightarrow> ('k \<times> 'v) list \<Rightarrow> ('k \<times> 'v) list" where
  "obj_spread a b = fold (\<lambda>(k, v) acc. obj_set acc k v) b a"

definition obj_get :: "(jsstring \<times> jsval) list \<Rightarrow> jsstring \<Rightarrow> jsval" where
  "obj_get kvs k = (case map_of kvs k of None \<Rightarrow> Undefined | Some v \<Rightarrow> v)"

section \<open>Errors\<close>

text \<open>
  \<open>class HoyolabError extends Error\<close> carries a message. \<open>HoyolabRequestError code message\<close>
  is the HoyolabError that \<open>send\<close> builds from a caught AxiosError, with message
  \<^verbatim>\<open>`Request Error: [${error.code}] - ${error.message}`\<close>; the two interpolated fields
  of the AxiosError are kept apart. \<open>URIError\<close> and \<open>TypeError\<close> are the built-in
  exceptions the modelled code can raise besides it.
\<close>

datatype error =
    HoyolabError jsstring
  | HoyolabRequestError "jsstring option" jsval
  | URIError
  | TypeError

text \<open>
  Reading a property \<open>v.k\<close>: a TypeError on \<open>undefined\<close> and \<open>null\<close>, the property of an
  object, and \<open>undefined\<close> for the property names read here (\<open>retcode\<close>, \<open>data\<close>) on
  every other value.
\<close>

fun get_prop :: "jsval \<Rightarrow> jsstring \<Rightarrow> error + jsval" where
  "get_prop Undefined k = Inl TypeError"
| "get_prop Null k = Inl TypeError"
| "get_prop (Obj kvs) k = Inr (obj_get kvs k)"
| "get_prop v k = Inr Undefined"

section \<open>Genshin region resolver (src/games/gi/gi.helper.ts)\<close>

datatype GenshinRegionKey = USA | EUROPE | ASIA | CHINA_TAIWAN

fun GenshinRegion :: "GenshinRegionKey \<Rightarrow> jsstring" where
  "GenshinRegion USA = str ''os_usa''"
| "GenshinRegion EUROPE = str ''os_euro''"
| "GenshinRegion ASIA = str ''os_asia''"
| "GenshinRegion CHINA_TAIWAN = str ''os_cht''"

text \<open>
  \<open>Number(s)\<close> for the strings \<open>slice(0, 1)\<close> can yield: the empty string and a string of
  white space are 0, a digit is its value, any other single code unit is NaN (\<open>None\<close>).
  The last equation is never reached from \<open>getGenshinRegion\<close>.
\<close>

fun Number_slice1 :: "jsstring \<Rightarrow> int option" where
  "Number_slice1 [] = Some 0"
| "Number_slice1 [c] =
     (if is_digit c then Some (int c - 48) else if is_white_space c then Some 0 else None)"
| "Number_slice1 (c # d # s) = None"

text \<open>
  \<^verbatim>\<open>
  function getGenshinRegion(uid) {
    const server_region = Number(uid.toString().trim().slice(0, 1));
    let key;
    switch (server_region) {
      case 6: key = "USA"; break;
      case 7: key = "EUROPE"; break;
      case 8: key = "ASIA"; break;
      case 9: key = "CHINA_TAIWAN"; break;
      default: throw new HoyolabError(`Given UID ${uid} is invalid !`);
    }
    return GenshinRegion[key];
  }
  \<close>
\<close>

definition invalid_uid :: "int \<Rightarrow> error" where
  "invalid_uid uid = HoyolabError (str ''Given UID '' @ toString_int uid @ str '' is invalid !'')"

definition getGenshinRegion :: "int \<Rightarrow> error + jsstring" where
  "getGenshinRegion uid =
     (let server_region = Number_slice1 (take 1 (trim (toString_int uid)))
      in if server_region = Some 6 then Inr (GenshinRegion USA)
         else if server_region = Some 7 then Inr (GenshinRegion EUROPE)
         else if server_region = Some 8 then Inr (GenshinRegion ASIA)
         else if server_region = Some 9 then Inr (GenshinRegion CHINA_TAIWAN)
         else Inl (invalid_uid uid))"

text \<open>The leading decimal digit of a natural number, by arithmetic alone.\<close>

fun leading_digit :: "nat \<Rightarrow> nat" where
  "leading_digit n = (if n < 10 then n else leading_digit (n div 10))"

declare leading_digit.simps [simp del]

section \<open>Environment of a request\<close>

text \<open>
  What \<open>send\<close> reads from outside the program is made explicit in a \<open>world\<close>: the
  clock \<open>Date.now()\<close> in milliseconds, the network behind \<open>axios\<close>, the stream of
  \<open>Math.random\<close> draws, and the two library functions \<open>md5\<close> (hex digest) and
  \<open>JSON.stringify\<close> on a cache key, which are taken as parameters.

  The \<open>k\<close>-th call of \<open>axios\<close> takes \<open>network w k\<close>: the time it lasts and its outcome,
  either a resolved response (status, status text, parsed body) or a rejection with an
  AxiosError (code, message). Every call is appended to \<open>requests\<close>.
\<close>

datatype http_method = GET | POST

record cache_key =
  key_url :: jsstring
  key_method :: http_method
  key_body :: "(jsstring \<times> jsval) list"
  key_params :: "(jsstring \<times> jsval) list"

record axios_config =
  config_method :: http_method
  config_params :: "(jsstring \<times> jsval) list"
  config_headers :: "(jsstring \<times> jsstring) list"
  config_data :: "(jsstring \<times> jsval) list option"

datatype axios_outcome =
    Response int "jsstring option" jsval
  | Rejected "jsstring option" jsval

record world =
  now :: nat
  network :: "nat \<Rightarrow> nat \<times> axios_outcome"
  requests :: "(jsstring \<times> axios_config) list"
  random :: "nat \<Rightarrow> nat"
  drawn :: nat
  md5 :: "jsstring \<Rightarrow> jsstring"
  stringify :: "cache_key \<Rightarrow> jsstring"

definition axios :: "world \<Rightarrow> jsstring \<Rightarrow> axios_config \<Rightarrow> axios_outcome \<times> world" where
  "axios w url config =
     (let (latency, outcome) = network w (length (requests w))
      in (outcome, w\<lparr>now := now w + latency, requests := requests w @ [(url, config)]\<rparr>))"

text \<open>\<open>delay(second)\<close> resolves after \<open>second * 1e3\<close> milliseconds.\<close>

definition delay :: "nat \<Rightarrow> world \<Rightarrow> world" where
  "delay second w = w\<lparr>now := now w + second * 1000\<rparr>"

text \<open>
  \<^verbatim>\<open>
  function generateDS() {
    const salt = "6s25p5ox5y14umn1p61aqyyvbvvl3lrt";
    const date = new Date();
    const time = Math.floor(date.getTime() / 1e3);
    let random = "";
    const characters = "abcdefghijklmnopqrstuvwxyzABCDEFGHIJKLMNOPQRSTUVWXYZ";
    for (let i = 0; i < 6; i++) {
      const randomIndex = Math.floor(Math.random() * characters.length);
      const randomChar = characters.charAt(randomIndex);
      random += randomChar;
    }
    const hash = createHash("md5").update(`salt=${salt}&t=${time}&r=${random}`).digest("hex");
    return `${time},${random},${hash}`;
  }
  \<close>
  The \<open>k\<close>-th draw \<open>random w k\<close> is the value of
  \<open>Math.floor(Math.random() * characters.length)\<close>.
\<close>

definition charAt :: "jsstring \<Rightarrow> nat \<Rightarrow> jsstring" where
  "charAt s i = (if i < length s then [s ! i] else [])"

definition characters :: jsstring where
  "characters = str ''abcdefghijklmnopqrstuvwxyzABCDEFGHIJKLMNOPQRSTUVWXYZ''"

fun random_chars :: "nat \<Rightarrow> world \<Rightarrow> jsstring \<times> world" where
  "random_chars 0 w = ([], w)"
| "random_chars (Suc i) w =
     (let randomIndex = random w (drawn w);
          randomChar = charAt characters randomIndex;
          (rest, w') = random_chars i (w\<lparr>drawn := drawn w + 1\<rparr>)
      in (randomChar @ rest, w'))"

definition generateDS :: "world \<Rightarrow> jsstring \<times> world" where
  "generateDS w =
     (let salt = str ''6s25p5ox5y14umn1p61aqyyvbvvl3lrt'';
          time = now w div 1000;
          (random, w') = random_chars 6 w;
          hash = md5 w (str ''salt='' @ salt @ str ''&t='' @ digits_of time @ str ''&r='' @ random)
      in (digits_of time @ str '','' @ random @ str '','' @ hash, w'))"

section \<open>Cache (src/request/request.cache.ts)\<close>

text \<open>
  Modelled from the spec: the store \<open>NodeCache\<close> of the package node-cache, which is not
  part of the repository. An entry is set with a time-to-live in seconds and is readable
  until that time has elapsed since it was set; reading an absent or expired key gives
  \<open>undefined\<close>.
\<close>

record cache_entry =
  entry_value :: jsval
  entry_stored :: nat
  entry_ttl :: nat

type_synonym node_cache = "jsstring \<Rightarrow> cache_entry option"

definition NodeCache_set :: "nat \<Rightarrow> node_cache \<Rightarrow> jsstring \<Rightarrow> jsval \<Rightarrow> nat \<Rightarrow> node_cache" where
  "NodeCache_set t store k v ttl =
     store(k \<mapsto> \<lparr>entry_value = v, entry_stored = t, entry_ttl = ttl\<rparr>)"

definition NodeCache_get :: "nat \<Rightarrow> node_cache \<Rightarrow> jsstring \<Rightarrow> jsval" where
  "NodeCache_get t store k =
     (case store k of
        None \<Rightarrow> Undefined
      | Some e \<Rightarrow> if t \<le> entry_stored e + entry_ttl e * 1000 then entry_value e else Undefined)"

text \<open>
  \<^verbatim>\<open>
  var Cache = class {
    constructor() {
      this.stdTTL = 30;
      this.nodeCache = new NodeCache({ stdTTL: this.stdTTL });
    }
    generateKey(key) {
      return createHash("md5").update(JSON.stringify(key)).digest("hex");
    }
    set(key, value, ttl) {
      if (typeof ttl === "undefined") { ttl = this.stdTTL; }
      return this.nodeCache.set(this.generateKey(key), value, ttl);
    }
    get(key) { return this.nodeCache.get(this.generateKey(key)); }
  };
  \<close>
  \<open>Cache_set\<close> returns the updated cache; the boolean that \<open>set\<close> returns is not used
  by any caller.
\<close>

record cache =
  stdTTL :: nat
  nodeCache :: node_cache

definition new_Cache :: cache where
  "new_Cache = \<lparr>stdTTL = 30, nodeCache = Map.empty\<rparr>"

definition generateKey :: "world \<Rightarrow> cache_key \<Rightarrow> jsstring" where
  "generateKey w key = md5 w (stringify w key)"

definition Cache_set :: "world \<Rightarrow> cache \<Rightarrow> cache_key \<Rightarrow> jsval \<Rightarrow> nat option \<Rightarrow> cache" where
  "Cache_set w c key v ttl =
     (let ttl' = (case ttl of None \<Rightarrow> stdTTL c | Some t \<Rightarrow> t)
      in c\<lparr>nodeCache := NodeCache_set (now w) (nodeCache c) (generateKey w key) v ttl'\<rparr>)"

definition Cache_get :: "world \<Rightarrow> cache \<Rightarrow> cache_key \<Rightarrow> jsval" where
  "Cache_get w c key = NodeCache_get (now w) (nodeCache c) (generateKey w key)"

section \<open>Request (src/request/request.ts)\<close>

record request =
  retries :: nat
  headers :: "(jsstring \<times> jsstring) list"
  body :: "(jsstring \<times> jsval) list"
  params :: "(jsstring \<times> jsval) list"
  cache :: cache
  ds :: bool

definition new_Request :: "jsstring option \<Rightarrow> request" where
  "new_Request cookies =
     (let r = \<lparr>retries = 1,
               headers =
                 [(str ''Content-Type'', str ''application/json''),
                  (str ''User-Agent'', str ''Mozilla/5.0 (Windows NT 10.0; Win64; x64) AppleWebKit/537.36 (KHTML, like Gecko) Chrome/109.0.0.0 Safari/537.36''),
                  (str ''x-rpc-app_version'', str ''1.5.0''),
                  (str ''x-rpc-client_type'', str ''5''),
                  (str ''x-rpc-language'', str ''en-us'')],
               body = [], params = [], cache = new_Cache, ds = False\<rparr>
      in case cookies of
           None \<Rightarrow> r
         | Some c \<Rightarrow> if c \<noteq> [] then r\<lparr>headers := obj_set (headers r) (str ''Cookie'') c\<rparr> else r)"

definition setReferer :: "request \<Rightarrow> jsstring \<Rightarrow> request" where
  "setReferer r url =
     r\<lparr>headers := obj_set (obj_set (headers r) (str ''Referer'') url) (str ''Origin'') url\<rparr>"

definition setBody :: "request \<Rightarrow> (jsstring \<times> jsval) list \<Rightarrow> request" where
  "setBody r b = r\<lparr>body := obj_spread (body r) b\<rparr>"

definition setParams :: "request \<Rightarrow> (jsstring \<times> jsval) list \<Rightarrow> request" where
  "setParams r p = r\<lparr>params := obj_spread (params r) p\<rparr>"

definition setDs :: "request \<Rightarrow> bool \<Rightarrow> request" where
  "setDs r flag = r\<lparr>ds := flag\<rparr>"

definition setLang :: "request \<Rightarrow> jsstring \<Rightarrow> request" where
  "setLang r lang = r\<lparr>headers := obj_set (headers r) (str ''x-rpc-language'') lang\<rparr>"

text \<open>
  \<^verbatim>\<open>
  async send(url, method = "GET", ttl) {
    const cacheKey = { url, method, body: this.body, params: this.params };
    const cachedResult = this.cache.get(cacheKey);
    if (cachedResult) {
      console.log("Requet Cached");
      return cachedResult;
    }
    if (this.ds) { this.headers.DS = generateDS(); }
    const config = { method, params: this.params, headers: this.headers, responseType: "json" };
    if (method === "POST") { config.data = this.body; }
    try {
      const request = await axios(url, config);
      const result = request.data;
      if ([200, 201].includes(request.status) === false) {
        throw new AxiosError(request.statusText ?? result.data, request.status.toString());
      }
      if (result.retcode === -2016 && this.retries <= 60) {
        this.retries++;
        await delay(1);
        return this.send(url, method);
      }
      this.cache.set(cacheKey, result, ttl);
      this.retries = 1;
      this.body = {};
      return result;
    } catch (error) {
      if (error instanceof AxiosError) {
        throw new HoyolabError(`Request Error: [${error.code}] - ${error.message}`);
      } else {
        return { retcode: -9999, message: "", data: null };
      }
    }
  }
  \<close>
  A call of \<open>send\<close> ends by throwing (\<open>Inl\<close>) or by returning a value (\<open>Inr\<close>), which is
  tagged with the \<open>return\<close> statement it comes from: the cached result, the result of the
  network, or the object of the \<open>catch\<close> block. \<open>send_body\<close> is the body of \<open>send\<close> up to
  its recursive call, which \<open>Retry\<close> stands for; \<open>send\<close> makes that call. The rejection
  of the promise that the inner \<open>send\<close> returns is not caught by the outer \<open>try\<close>, as the
  promise is returned without \<open>await\<close>.
\<close>

datatype origin = FromCache | FromNetwork | FromCatch

type_synonym send_result = "error + origin \<times> jsval"

definition sentinel :: jsval where
  "sentinel = Obj [(str ''retcode'', Num (- 9999)), (str ''message'', Str []), (str ''data'', Null)]"

datatype send_step =
    Done send_result request world
  | Retry request world

definition attach_DS :: "request \<Rightarrow> world \<Rightarrow> request \<times> world" where
  "attach_DS r w =
     (if ds r
      then (let (d, w') = generateDS w
            in (r\<lparr>headers := obj_set (headers r) (str ''DS'') d\<rparr>, w'))
      else (r, w))"

definition send_body :: "request \<Rightarrow> world \<Rightarrow> jsstring \<Rightarrow> http_method \<Rightarrow> nat option \<Rightarrow> send_step" where
  "send_body r w url method ttl =
     (let cacheKey = \<lparr>key_url = url, key_method = method, key_body = body r, key_params = params r\<rparr>;
          cachedResult = Cache_get w (cache r) cacheKey
      in if truthy cachedResult then Done (Inr (FromCache, cachedResult)) r w
         else
           let (r1, w1) = attach_DS r w;
               config = \<lparr>config_method = method, config_params = params r1,
                         config_headers = headers r1,
                         config_data = (if method = POST then Some (body r1) else None)\<rparr>;
               (outcome, w2) = axios w1 url config
           in case outcome of
                Rejected code message \<Rightarrow> Done (Inl (HoyolabRequestError code message)) r1 w2
              | Response status statusText result \<Rightarrow>
                  if status \<noteq> 200 \<and> status \<noteq> 201
                  then (case statusText of
                          Some t \<Rightarrow>
                            Done (Inl (HoyolabRequestError (Some (toString_int status)) (Str t))) r1 w2
                        | None \<Rightarrow>
                            (case get_prop result (str ''data'') of
                               Inl e \<Rightarrow> Done (Inr (FromCatch, sentinel)) r1 w2
                             | Inr d \<Rightarrow>
                                 Done (Inl (HoyolabRequestError (Some (toString_int status)) d)) r1 w2))
                  else (case get_prop result (str ''retcode'') of
                          Inl e \<Rightarrow> Done (Inr (FromCatch, sentinel)) r1 w2
                        | Inr retcode \<Rightarrow>
                            if retcode = Num (- 2016) \<and> retries r1 \<le> 60
                            then Retry (r1\<lparr>retries := retries r1 + 1\<rparr>) (delay 1 w2)
                            else Done (Inr (FromNetwork, result))
                                   (r1\<lparr>cache := Cache_set w2 (cache r1) cacheKey result ttl,
                                        retries := 1, body := []\<rparr>)
                                   w2))"

function send :: "request \<Rightarrow> world \<Rightarrow> jsstring \<Rightarrow> http_method \<Rightarrow> nat option
                  \<Rightarrow> send_result \<times> request \<times> world" where
  "send r w url method ttl =
     (case send_body r w url method ttl of
        Done res r' w' \<Rightarrow> (res, r', w')
      | Retry r' w' \<Rightarrow> send r' w' url method None)"
  by pat_completeness auto
termination
proof (relation "measure (\<lambda>(r, w, url, method, ttl). 61 - retries r)")
  show "wf (measure (\<lambda>(r, w, url, method, ttl). 61 - retries r))" by simp
next
  fix r w url m ttl r' w'
  assume "send_body r w url m ttl = Retry r' w'"
  then have "retries r \<le> 60 \<and> retries r' = retries r + 1"
    by (auto simp: send_body_def attach_DS_def Let_def
          split: if_splits prod.splits axios_outcome.splits option.splits sum.splits)
  then show "((r', w', url, m, None), (r, w, url, m, ttl))
             \<in> measure (\<lambda>(r, w, url, method, ttl). 61 - retries r)"
    by auto
qed

declare send.simps [simp del]


section \<open>Redeem module (src/modules/redeem/redeem.ts)\<close>

text \<open>
  \<^verbatim>\<open>
  async claim(code: string): Promise<IRedeemCode> {
    if (!this.region || !this.uid) {
      throw new HoyolabError('UID parameter is missing or failed to be filled')
    }
    this.request.setParams({
      uid: this.uid,
      region: this.region,
      game_biz: this.game,
      cdkey: code.replace(/\uFFFD/g, ''),
      lang: this.lang,
      sLangKey: this.lang,
    })
    const res = await this.request.send(RedeemRoute.redeem())
    return res as IRedeemCode
  }
  \<close>
  \<open>region\<close> is \<open>string | null\<close> and \<open>uid\<close> is \<open>number | null\<close>; the empty string and 0
  are falsy as \<open>null\<close> is. The replacement character is the code unit 65533.
\<close>

definition Routes_hke :: jsstring where
  "Routes_hke = str ''https://sg-hk4e-api.hoyolab.com''"

definition RedeemRoute_redeem :: jsstring where
  "RedeemRoute_redeem = Routes_hke @ str ''/common/apicdkey/api/webExchangeCdkey''"

record redeem_module =
  module_request :: request
  module_lang :: jsstring
  module_game :: jsstring
  module_region :: "jsstring option"
  module_uid :: "int option"

definition replace_FFFD :: "jsstring \<Rightarrow> jsstring" where
  "replace_FFFD code = filter (\<lambda>c. c \<noteq> 65533) code"

definition claim :: "redeem_module \<Rightarrow> world \<Rightarrow> jsstring \<Rightarrow> send_result \<times> redeem_module \<times> world" where
  "claim m w code =
     (if module_region m = None \<or> module_region m = Some [] \<or> module_uid m = None \<or> module_uid m = Some 0
      then (Inl (HoyolabError (str ''UID parameter is missing or failed to be filled'')), m, w)
      else
        let r = setParams (module_request m)
                  [(str ''uid'', Num (the (module_uid m))),
                   (str ''region'', Str (the (module_region m))),
                   (str ''game_biz'', Str (module_game m)),
                   (str ''cdkey'', Str (replace_FFFD code)),
                   (str ''lang'', Str (module_lang m)),
                   (str ''sLangKey'', Str (module_lang m))];
            (res, r', w') = send r w RedeemRoute_redeem GET None
        in (res, m\<lparr>module_request := r'\<rparr>, w'))"

section \<open>Cookie (src/cookie/cookie.ts, src/cookie/cookie.helper.ts)\<close>

text \<open>\<open>s.split(sep)\<close> for a separator of one code unit, and \<open>xs.join(sep)\<close>.\<close>

fun split_on :: "code_unit \<Rightarrow> jsstring \<Rightarrow> jsstring list" where
  "split_on sep [] = [[]]"
| "split_on sep (c # cs) =
     (if c = sep then [] # split_on sep cs
      else (case split_on sep cs of [] \<Rightarrow> [[c]] | x # xs \<Rightarrow> (c # x) # xs))"

fun join :: "jsstring \<Rightarrow> jsstring list \<Rightarrow> jsstring" where
  "join sep [] = []"
| "join sep [x] = x"
| "join sep (x # y # ys) = x @ sep @ join sep (y # ys)"

text \<open>
  \<^verbatim>\<open>
  function toCamelCase(str) {
    const words = str.split("_");
    const camelCaseWords = words.map((word, index) => {
      return index === 0 ? word : word.charAt(0).toUpperCase() + word.slice(1);
    });
    return camelCaseWords.join("");
  }
  function toSnakeCase(text) {
    return text.replace(/([A-Z])/g, " $1").split(" ").join("_").toLowerCase();
  }
  \<close>
  Both are applied to the fixed ASCII keys of a cookie only, on which changing the case of
  the letters \<open>a\<close> to \<open>z\<close> is all that \<open>toUpperCase\<close> and \<open>toLowerCase\<close> do.
\<close>

definition toUpperCase_unit :: "code_unit \<Rightarrow> code_unit" where
  "toUpperCase_unit c = (if 97 \<le> c \<and> c \<le> 122 then c - 32 else c)"

definition toLowerCase_unit :: "code_unit \<Rightarrow> code_unit" where
  "toLowerCase_unit c = (if 65 \<le> c \<and> c \<le> 90 then c + 32 else c)"

definition capitalize :: "jsstring \<Rightarrow> jsstring" where
  "capitalize word = (case word of [] \<Rightarrow> [] | c # cs \<Rightarrow> toUpperCase_unit c # cs)"

definition toCamelCase :: "jsstring \<Rightarrow> jsstring" where
  "toCamelCase s =
     (case split_on 95 s of
        [] \<Rightarrow> []
      | word # words \<Rightarrow> concat (word # map capitalize words))"

definition toSnakeCase :: "jsstring \<Rightarrow> jsstring" where
  "toSnakeCase text =
     map toLowerCase_unit
       (join (str ''_'')
          (split_on 32 (concat (map (\<lambda>c. if 65 \<le> c \<and> c \<le> 90 then [32, c] else [c]) text))))"

text \<open>
  \<^verbatim>\<open>
  static parseLang(lang) {
    if (!lang) { return "en-us"; }
    const langKeys = Object.keys(LanguageEnum);
    const matchingKey = langKeys.find((key) => LanguageEnum[key] === lang);
    return matchingKey ? LanguageEnum[matchingKey] : "en-us";
  }
  \<close>
\<close>

definition LanguageEnum :: "jsstring list" where
  "LanguageEnum =
     [str ''zh-cn'', str ''zh-tw'', str ''de-de'', str ''en-us'', str ''es-es'', str ''fr-fr'',
      str ''id-id'', str ''it-it'', str ''ja-jp'', str ''ko-kr'', str ''pt-pt'', str ''ru-ru'',
      str ''th-th'', str ''tr-tr'', str ''vi-vn'']"

definition parseLang :: "jsstring \<Rightarrow> jsstring" where
  "parseLang lang =
     (if lang = [] then str ''en-us''
      else if lang \<in> set LanguageEnum then lang else str ''en-us'')"

text \<open>
  \<open>decodeURIComponent\<close>: every \<open>%\<close> must be followed by two hexadecimal digits, which
  give an octet; the octets must form well-formed UTF-8, whose scalar values are appended
  as UTF-16; anything else is a URIError. The string is first cut into literal code units
  and octets, then the octets are decoded with the state of the sequence being read:
  the number of continuation octets still expected, the bits read, and the least value
  that this length may encode.
\<close>

definition hex_value :: "code_unit \<Rightarrow> nat option" where
  "hex_value c =
     (if 48 \<le> c \<and> c \<le> 57 then Some (c - 48)
      else if 65 \<le> c \<and> c \<le> 70 then Some (c - 55)
      else if 97 \<le> c \<and> c \<le> 102 then Some (c - 87)
      else None)"

datatype uri_token = Lit code_unit | Octet nat | Malformed

fun uri_tokens :: "jsstring \<Rightarrow> uri_token list" where
  "uri_tokens [] = []"
| "uri_tokens [c] = (if c = 37 then [Malformed] else [Lit c])"
| "uri_tokens [c, d] = (if c = 37 then [Malformed] else Lit c # uri_tokens [d])"
| "uri_tokens (c # h1 # h2 # rest) =
     (if c = 37
      then (case (hex_value h1, hex_value h2) of
              (Some a, Some b) \<Rightarrow> Octet (16 * a + b) # uri_tokens rest
            | _ \<Rightarrow> [Malformed])
      else Lit c # uri_tokens (h1 # h2 # rest))"

definition continuation :: "uri_token \<Rightarrow> nat option" where
  "continuation t =
     (case t of Octet b \<Rightarrow> if 128 \<le> b \<and> b < 192 then Some (b - 128) else None | _ \<Rightarrow> None)"

definition scalar_value :: "nat \<Rightarrow> nat \<Rightarrow> bool" where
  "scalar_value lo v \<longleftrightarrow> lo \<le> v \<and> v \<le> 1114111 \<and> \<not> (55296 \<le> v \<and> v \<le> 57343)"

definition utf16 :: "nat \<Rightarrow> jsstring" where
  "utf16 v =
     (if v < 65536 then [v]
      else [55296 + (v - 65536) div 1024, 56320 + (v - 65536) mod 1024])"

definition prepend :: "jsstring \<Rightarrow> error + jsstring \<Rightarrow> error + jsstring" where
  "prepend s r = (case r of Inl e \<Rightarrow> Inl e | Inr t \<Rightarrow> Inr (s @ t))"

fun decode_tokens :: "(nat \<times> nat \<times> nat) option \<Rightarrow> uri_token list \<Rightarrow> error + jsstring" where
  "decode_tokens None [] = Inr []"
| "decode_tokens (Some p) [] = Inl URIError"
| "decode_tokens None (Malformed # ts) = Inl URIError"
| "decode_tokens None (Lit c # ts) = prepend [c] (decode_tokens None ts)"
| "decode_tokens None (Octet b # ts) =
     (if b < 128 then prepend [b] (decode_tokens None ts)
      else if 192 \<le> b \<and> b < 224 then decode_tokens (Some (1, b - 192, 128)) ts
      else if 224 \<le> b \<and> b < 240 then decode_tokens (Some (2, b - 224, 2048)) ts
      else if 240 \<le> b \<and> b < 248 then decode_tokens (Some (3, b - 240, 65536)) ts
      else Inl URIError)"
| "decode_tokens (Some (n, v, lo)) (t # ts) =
     (case continuation t of
        None \<Rightarrow> Inl URIError
      | Some c \<Rightarrow>
          if n = 1
          then (if scalar_value lo (v * 64 + c)
                then prepend (utf16 (v * 64 + c)) (decode_tokens None ts)
                else Inl URIError)
          else decode_tokens (Some (n - 1, v * 64 + c, lo)) ts)"

definition decodeURIComponent :: "jsstring \<Rightarrow> error + jsstring" where
  "decodeURIComponent s = decode_tokens None (uri_tokens s)"



text \<open>
  \<open>parseInt(s, 10)\<close>: leading white space and one sign are skipped, the longest prefix of
  decimal digits is read, and there is NaN when it is empty.
\<close>

definition digits_value :: "jsstring \<Rightarrow> int" where
  "digits_value digits = foldl (\<lambda>acc c. acc * 10 + (int c - 48)) 0 digits"

definition parseInt :: "jsstring \<Rightarrow> jsval" where
  "parseInt s =
     (let t = trimStart s;
          (negative, u) =
            (case t of
               [] \<Rightarrow> (False, [])
             | c # cs \<Rightarrow> if c = 45 then (True, cs) else if c = 43 then (False, cs) else (False, t));
          digits = takeWhile is_digit u
      in if digits = [] then NaN
         else Num (if negative then - digits_value digits else digits_value digits))"

text \<open>ToString, as applied by a template literal and by the built-ins that take a string.\<close>

fun js_ToString :: "jsval \<Rightarrow> jsstring" where
  "js_ToString Undefined = str ''undefined''"
| "js_ToString Null = str ''null''"
| "js_ToString (Bool b) = (if b then str ''true'' else str ''false'')"
| "js_ToString (Num n) = toString_int n"
| "js_ToString NaN = str ''NaN''"
| "js_ToString (Str s) = s"
| "js_ToString (Arr xs) =
     join (str '','')
       (map (\<lambda>x. if x = Undefined \<or> x = Null then [] else js_ToString x) xs)"
| "js_ToString (Obj kvs) = str ''[object Object]''"

text \<open>
  \<^verbatim>\<open>
  static parseCookieString(cookieString) {
    const cookies = {};
    const keys = ["ltoken", "ltuid", "account_id", "cookie_token", "mi18nLang"];
    cookieString.split(";").forEach((cookie) => {
      const [cookieKey, cookieValue] = cookie.trim().split("=");
      if (keys.includes(cookieKey)) {
        cookies[toCamelCase(cookieKey)] = decodeURIComponent(cookieValue);
        if (cookieKey === "ltuid" || cookieKey === "account_id") {
          cookies[toCamelCase(cookieKey)] = parseInt(cookies[toCamelCase(cookieKey)], 10);
        } else if (cookieKey === "mi18nLang") {
          cookies[toCamelCase(cookieKey)] = Language.parseLang(cookies[toCamelCase(cookieKey)].toString());
        }
      }
    });
    if (cookies.ltuid && !cookies.accountId) {
      cookies.accountId = cookies.ltuid;
    } else if (!cookies.ltuid && cookies.accountId) {
      cookies.ltuid = cookies.accountId;
    }
    if (!cookies.ltoken || !cookies.ltuid) {
      throw new HoyolabError("Cookie key ltuid or ltoken doesnt exist !");
    }
    return cookies;
  }
  \<close>
  \<open>parse_segment\<close> is the body of the \<open>forEach\<close> callback and \<open>parse_segments\<close> the
  iteration, which the first exception ends. \<open>split\<close> never returns an empty array, so
  \<open>cookieKey\<close> is always a string; \<open>cookieValue\<close> is \<open>undefined\<close> when the segment has
  no \<open>=\<close>.
\<close>

definition cookie_keys :: "jsstring list" where
  "cookie_keys = [str ''ltoken'', str ''ltuid'', str ''account_id'', str ''cookie_token'', str ''mi18nLang'']"

type_synonym cookie = "(jsstring \<times> jsval) list"

definition parse_segment :: "jsstring \<Rightarrow> cookie \<Rightarrow> error + cookie" where
  "parse_segment segment cookies =
     (let parts = split_on 61 (trim segment);
          cookieKey = (case parts of [] \<Rightarrow> [] | k # _ \<Rightarrow> k);
          cookieValue = (case parts of k # v # _ \<Rightarrow> Str v | _ \<Rightarrow> Undefined)
      in if cookieKey \<in> set cookie_keys
         then (case decodeURIComponent (js_ToString cookieValue) of
                 Inl e \<Rightarrow> Inl e
               | Inr decoded \<Rightarrow>
                   let name = toCamelCase cookieKey;
                       cookies1 = obj_set cookies name (Str decoded)
                   in if cookieKey = str ''ltuid'' \<or> cookieKey = str ''account_id''
                      then Inr (obj_set cookies1 name (parseInt (js_ToString (obj_get cookies1 name))))
                      else if cookieKey = str ''mi18nLang''
                      then Inr (obj_set cookies1 name (Str (parseLang (js_ToString (obj_get cookies1 name)))))
                      else Inr cookies1)
         else Inr cookies)"

fun parse_segments :: "jsstring list \<Rightarrow> cookie \<Rightarrow> error + cookie" where
  "parse_segments [] cookies = Inr cookies"
| "parse_segments (segment # segments) cookies =
     (case parse_segment segment cookies of
        Inl e \<Rightarrow> Inl e
      | Inr cookies' \<Rightarrow> parse_segments segments cookies')"

definition key_missing :: error where
  "key_missing = HoyolabError (str ''Cookie key ltuid or ltoken doesnt exist !'')"

definition parseCookieString :: "jsstring \<Rightarrow> error + cookie" where
  "parseCookieString cookieString =
     (case parse_segments (split_on 59 cookieString) [] of
        Inl e \<Rightarrow> Inl e
      | Inr cookies \<Rightarrow>
          let cookies1 =
                (if truthy (obj_get cookies (str ''ltuid'')) \<and> \<not> truthy (obj_get cookies (str ''accountId''))
                 then obj_set cookies (str ''accountId'') (obj_get cookies (str ''ltuid''))
                 else if \<not> truthy (obj_get cookies (str ''ltuid'')) \<and> truthy (obj_get cookies (str ''accountId''))
                 then obj_set cookies (str ''ltuid'') (obj_get cookies (str ''accountId''))
                 else cookies)
          in if \<not> truthy (obj_get cookies1 (str ''ltoken'')) \<or> \<not> truthy (obj_get cookies1 (str ''ltuid''))
             then Inl key_missing
             else Inr cookies1)"

text \<open>
  \<^verbatim>\<open>
  static parseCookie(cookie) {
    if (!cookie.accountId) {
      cookie.accountId = cookie.ltuid;
    }
    const cookies = [];
    Object.entries(cookie).forEach(([key, value]) => {
      if (value) {
        if (["cookieToken", "accountId"].includes(key)) {
          key = toSnakeCase(key);
        }
        cookies.push(`${key}=${value}`);
      }
    });
    return cookies.join("; ");
  }
  \<close>
  The object passed in is mutated, so \<open>parseCookie\<close> returns it beside the string.
\<close>

definition render_entry :: "jsstring \<times> jsval \<Rightarrow> jsstring list" where
  "render_entry kv =
     (case kv of (key, v) \<Rightarrow>
        if truthy v
        then [(if key \<in> set [str ''cookieToken'', str ''accountId''] then toSnakeCase key else key)
              @ str ''='' @ js_ToString v]
        else [])"

definition parseCookie :: "cookie \<Rightarrow> jsstring \<times> cookie" where
  "parseCookie cookie =
     (let cookie1 =
            (if \<not> truthy (obj_get cookie (str ''accountId''))
             then obj_set cookie (str ''accountId'') (obj_get cookie (str ''ltuid''))
             else cookie);
          cookies = concat (map render_entry cookie1)
      in (join (str ''; '') cookies, cookie1))"

section \<open>Vocabulary for the properties of send\<close>

text \<open>
  Names for the states that one attempt of \<open>send\<close> goes through, and for what the outcome
  of a transport call makes of it. They are used to state the properties only.
\<close>

definition cacheKey_of :: "request \<Rightarrow> jsstring \<Rightarrow> http_method \<Rightarrow> cache_key" where
  "cacheKey_of r url method =
     \<lparr>key_url = url, key_method = method, key_body = body r, key_params = params r\<rparr>"

definition cache_hit :: "request \<Rightarrow> world \<Rightarrow> jsstring \<Rightarrow> http_method \<Rightarrow> bool" where
  "cache_hit r w url method \<longleftrightarrow> truthy (Cache_get w (cache r) (cacheKey_of r url method))"

definition calls :: "world \<Rightarrow> nat" where
  "calls w = length (requests w)"

definition next_outcome :: "world \<Rightarrow> axios_outcome" where
  "next_outcome w = snd (network w (calls w))"

definition config_of :: "request \<Rightarrow> http_method \<Rightarrow> axios_config" where
  "config_of r method =
     \<lparr>config_method = method, config_params = params r, config_headers = headers r,
      config_data = (if method = POST then Some (body r) else None)\<rparr>"

definition signed :: "request \<Rightarrow> world \<Rightarrow> request" where
  "signed r w = fst (attach_DS r w)"

definition called :: "request \<Rightarrow> world \<Rightarrow> jsstring \<Rightarrow> http_method \<Rightarrow> world" where
  "called r w url method =
     snd (axios (snd (attach_DS r w)) url (config_of (signed r w) method))"

text \<open>
  The Request and the world at the start of the attempt of a send that follows \<open>k\<close>
  attempts answered with a retry: each of them signs the Request, makes its transport
  call, increments the counter and waits one second.
\<close>

fun attempt :: "request \<Rightarrow> world \<Rightarrow> jsstring \<Rightarrow> http_method \<Rightarrow> nat \<Rightarrow> request \<times> world" where
  "attempt r w url method 0 = (r, w)"
| "attempt r w url method (Suc k) =
     attempt ((signed r w)\<lparr>retries := retries r + 1\<rparr>) (delay 1 (called r w url method))
       url method k"

fun raises :: "axios_outcome \<Rightarrow> bool" where
  "raises (Rejected code message) = True"
| "raises (Response status statusText result) =
     (status \<noteq> 200 \<and> status \<noteq> 201 \<and> (statusText \<noteq> None \<or> (result \<noteq> Undefined \<and> result \<noteq> Null)))"

fun raised :: "axios_outcome \<Rightarrow> error" where
  "raised (Rejected code message) = HoyolabRequestError code message"
| "raised (Response status statusText result) =
     HoyolabRequestError (Some (toString_int status))
       (case statusText of
          Some t \<Rightarrow> Str t
        | None \<Rightarrow> (case result of Obj kvs \<Rightarrow> obj_get kvs (str ''data'') | _ \<Rightarrow> Undefined))"

fun swallowed :: "axios_outcome \<Rightarrow> bool" where
  "swallowed (Rejected code message) = False"
| "swallowed (Response status statusText result) =
     ((result = Undefined \<or> result = Null) \<and> (status = 200 \<or> status = 201 \<or> statusText = None))"

fun rate_limited :: "axios_outcome \<Rightarrow> bool" where
  "rate_limited (Rejected code message) = False"
| "rate_limited (Response status statusText result) =
     ((status = 200 \<or> status = 201) \<and> get_prop result (str ''retcode'') = Inr (Num (- 2016)))"

fun response_data :: "axios_outcome \<Rightarrow> jsval" where
  "response_data (Rejected code message) = Undefined"
| "response_data (Response status statusText result) = result"

section \<open>Example inputs\<close>

text \<open>
  A world for examples: the clock starts at 0, every transport call takes no time and its
  outcome is given by position, and the digest of a cache key is its url.
\<close>

definition envelope :: "int \<Rightarrow> jsval" where
  "envelope retcode =
     Obj [(str ''retcode'', Num retcode), (str ''message'', Str (str ''OK'')), (str ''data'', Null)]"

definition example_world :: "(nat \<Rightarrow> axios_outcome) \<Rightarrow> world" where
  "example_world outcomes =
     \<lparr>now = 0, network = (\<lambda>k. (0, outcomes k)), requests = [], random = (\<lambda>k. 0), drawn = 0,
      md5 = (\<lambda>s. s), stringify = key_url\<rparr>"

definition always_2016 :: "nat \<Rightarrow> axios_outcome" where
  "always_2016 k = Response 200 (Some (str ''OK'')) (envelope (- 2016))"

definition always_ok :: "nat \<Rightarrow> axios_outcome" where
  "always_ok k = Response 200 (Some (str ''OK'')) (envelope 0)"

definition always_rejected :: "nat \<Rightarrow> axios_outcome" where
  "always_rejected k = Rejected (Some (str ''ECONNREFUSED'')) (Str (str ''connect ECONNREFUSED''))"

definition always_204 :: "nat \<Rightarrow> axios_outcome" where
  "always_204 k = Response 204 (Some (str ''No Content'')) (envelope 0)"

definition accepted_2016 :: "nat \<Rightarrow> axios_outcome" where
  "accepted_2016 k = Response 202 (Some (str ''Accepted'')) (envelope (- 2016))"

definition always_null :: "nat \<Rightarrow> axios_outcome" where
  "always_null k = Response 200 (Some (str ''OK'')) Null"

definition limited_then_rejected :: "nat \<Rightarrow> axios_outcome" where
  "limited_then_rejected k = (if k = 0 then always_2016 k else always_rejected k)"

definition example_request :: request where
  "example_request = setBody (new_Request None) [(str ''act_id'', Str (str ''e2020''))]"

definition signing_request :: request where
  "signing_request = setDs (new_Request None) True"

definition limited_once :: "nat \<Rightarrow> axios_outcome" where
  "limited_once k = (if k = 0 then always_2016 k else always_ok k)"

text \<open>Time that passes between two calls of the program.\<close>

definition elapse :: "nat \<Rightarrow> world \<Rightarrow> world" where
  "elapse ms w = w\<lparr>now := now w + ms\<rparr>"

definition retried_send :: "send_result \<times> request \<times> world" where
  "retried_send =
     send (new_Request None) (example_world limited_once) RedeemRoute_redeem GET (Some 300)"

definition example_module :: redeem_module where
  "example_module =
     \<lparr>module_request = new_Request None, module_lang = str ''en-us'',
      module_game = str ''hk4e_global'', module_region = Some (str ''os_asia''),
      module_uid = Some 801234567\<rparr>"

section \<open>Vocabulary for the properties of cookies\<close>

text \<open>
  The key of a segment of a cookie string is what \<open>parseCookieString\<close> compares with its
  list of keys, and its value is what it decodes; \<open>field_value\<close> is what is stored for a
  key. \<open>rstrip\<close> removes the white space at the end, as \<open>trim\<close> does. \<open>cookie_field\<close>
  tells the values that \<open>parseCookieString\<close> can store under a field.
\<close>

definition segment_key :: "jsstring \<Rightarrow> jsstring" where
  "segment_key segment = (case split_on 61 (trim segment) of [] \<Rightarrow> [] | k # _ \<Rightarrow> k)"

definition cookie_string_keys :: "jsstring \<Rightarrow> jsstring list" where
  "cookie_string_keys cookieString = map segment_key (split_on 59 cookieString)"

definition rstrip :: "jsstring \<Rightarrow> jsstring" where
  "rstrip s = rev (dropWhile is_white_space (rev s))"

definition segment_value :: "jsstring \<Rightarrow> jsstring" where
  "segment_value segment =
     js_ToString (case split_on 61 (trim segment) of k # v # _ \<Rightarrow> Str v | _ \<Rightarrow> Undefined)"

definition field_value :: "jsstring \<Rightarrow> jsstring \<Rightarrow> jsval" where
  "field_value key decoded =
     (if key = str ''ltuid'' \<or> key = str ''account_id'' then parseInt decoded
      else if key = str ''mi18nLang'' then Str (parseLang decoded)
      else Str decoded)"

fun cookie_field :: "jsstring \<Rightarrow> jsval \<Rightarrow> bool" where
  "cookie_field k (Str x) =
     (k = str ''ltoken'' \<or> k = str ''cookieToken'' \<or> (k = str ''mi18nLang'' \<and> x \<in> set LanguageEnum))"
| "cookie_field k (Num i) = (k = str ''ltuid'' \<or> k = str ''accountId'')"
| "cookie_field k NaN = (k = str ''ltuid'' \<or> k = str ''accountId'')"
| "cookie_field k v = False"



definition percent_cookie :: cookie where
  "percent_cookie =
     [(str ''ltoken'', Str (str ''a%41'')), (str ''ltuid'', Num 5), (str ''accountId'', Num 5)]"

definition plain_cookie :: cookie where
  "plain_cookie =
     [(str ''ltoken'', Str (str ''abc'')), (str ''ltuid'', Num 123), (str ''accountId'', Num 123)]"

section \<open>Properties of the region resolver\<close>

lemma digits_of_not_Nil: "digits_of n \<noteq> []"
  by (subst digits_of.simps) simp

lemma hd_digits_of: "hd (digits_of n) = 48 + leading_digit n"
proof (induction n rule: digits_of.induct)
  case (1 n)
  show ?case
  proof (cases "n < 10")
    case True
    then show ?thesis
      by (subst digits_of.simps, subst leading_digit.simps) simp
  next
    case False
    with 1 have "hd (digits_of (n div 10)) = 48 + leading_digit (n div 10)"
      by simp
    with False show ?thesis
      by (subst digits_of.simps, subst leading_digit.simps)
         (simp add: digits_of_not_Nil)
  qed
qed

lemma leading_digit_less: "leading_digit n < 10"
  by (induction n rule: leading_digit.induct) (subst leading_digit.simps, simp)

lemma digits_of_all_digits: "c \<in> set (digits_of n) \<Longrightarrow> is_digit c"
proof (induction n rule: digits_of.induct)
  case (1 n)
  then show ?case
    by (subst (asm) (2) digits_of.simps) (auto simp: is_digit_def split: if_splits)
qed

lemma is_digit_not_white_space: "is_digit c \<Longrightarrow> \<not> is_white_space c"
  by (auto simp: is_digit_def is_white_space_def)

lemma trim_digits_of: "trim (digits_of n) = digits_of n"
proof -
  have a: "\<not> is_white_space (hd (digits_of n))"
    using digits_of_all_digits [of "hd (digits_of n)" n] digits_of_not_Nil [of n]
    by (simp add: is_digit_not_white_space)
  have b: "\<not> is_white_space (last (digits_of n))"
    using digits_of_all_digits [of "last (digits_of n)" n] digits_of_not_Nil [of n]
    by (simp add: is_digit_not_white_space)
  have "dropWhile is_white_space (digits_of n) = digits_of n"
    using a digits_of_not_Nil [of n] by (cases "digits_of n") simp_all
  moreover have "dropWhile is_white_space (rev (digits_of n)) = rev (digits_of n)"
    using b digits_of_not_Nil [of n]
    by (cases "digits_of n" rule: rev_cases) simp_all
  ultimately show ?thesis by (simp add: trim_def)
qed

lemma server_region_of_uid:
  assumes "0 \<le> uid"
  shows "Number_slice1 (take 1 (trim (toString_int uid))) = Some (int (leading_digit (nat uid)))"
proof -
  obtain c cs where cs: "digits_of (nat uid) = c # cs"
    using digits_of_not_Nil [of "nat uid"] by (cases "digits_of (nat uid)") auto
  have c: "c = 48 + leading_digit (nat uid)"
    using hd_digits_of [of "nat uid"] cs by simp
  have d: "is_digit c"
    using digits_of_all_digits [of c "nat uid"] cs by simp
  have "toString_int uid = digits_of (nat uid)"
    using assms by (simp add: toString_int_def)
  then have "trim (toString_int uid) = digits_of (nat uid)"
    by (simp only: trim_digits_of)
  then have "take 1 (trim (toString_int uid)) = [c]"
    by (simp add: cs)
  then show ?thesis
    using d c by (simp add: is_digit_def)
qed

lemma getGenshinRegion_nonneg:
  assumes "0 \<le> uid"
  shows "getGenshinRegion uid =
           (if leading_digit (nat uid) = 6 then Inr (str ''os_usa'')
            else if leading_digit (nat uid) = 7 then Inr (str ''os_euro'')
            else if leading_digit (nat uid) = 8 then Inr (str ''os_asia'')
            else if leading_digit (nat uid) = 9 then Inr (str ''os_cht'')
            else Inl (invalid_uid uid))"
  unfolding getGenshinRegion_def server_region_of_uid [OF assms]
  by (simp add: Let_def)

lemma leading_digit_601234567: "leading_digit (nat 601234567) = 6"
  by (simp add: leading_digit.simps)

lemma leading_digit_701234567: "leading_digit (nat 701234567) = 7"
  by (simp add: leading_digit.simps)

lemma leading_digit_801234567: "leading_digit (nat 801234567) = 8"
  by (simp add: leading_digit.simps)

text \<open>
  C8. For every UID that is a non-negative safe integer, the Genshin resolver returns the
  USA code when the leading decimal digit is 6, EUROPE for 7, ASIA for 8, CHINA_TAIWAN for 9,
  and throws the HoyolabError naming the UID for every other leading digit. UID 601234567
  resolves to USA, 701234567 to EUROPE, and a UID whose leading digit is 1 fails.
\<close>

theorem getGenshinRegion_leading_digit:
  assumes "0 \<le> uid" and "uid \<le> MAX_SAFE_INTEGER"
  shows "getGenshinRegion uid =
           (if leading_digit (nat uid) = 6 then Inr (str ''os_usa'')
            else if leading_digit (nat uid) = 7 then Inr (str ''os_euro'')
            else if leading_digit (nat uid) = 8 then Inr (str ''os_asia'')
            else if leading_digit (nat uid) = 9 then Inr (str ''os_cht'')
            else Inl (invalid_uid uid))
         \<and> getGenshinRegion 601234567 = Inr (str ''os_usa'')
         \<and> getGenshinRegion 701234567 = Inr (str ''os_euro'')
         \<and> (leading_digit (nat uid) = 1 \<longrightarrow> getGenshinRegion uid = Inl (invalid_uid uid))"
proof -
  have g: "getGenshinRegion uid =
           (if leading_digit (nat uid) = 6 then Inr (str ''os_usa'')
            else if leading_digit (nat uid) = 7 then Inr (str ''os_euro'')
            else if leading_digit (nat uid) = 8 then Inr (str ''os_asia'')
            else if leading_digit (nat uid) = 9 then Inr (str ''os_cht'')
            else Inl (invalid_uid uid))"
    by (rule getGenshinRegion_nonneg [OF assms(1)])
  have one: "leading_digit (nat uid) = 1 \<longrightarrow> getGenshinRegion uid = Inl (invalid_uid uid)"
    by (simp add: g)
  have u: "getGenshinRegion 601234567 = Inr (str ''os_usa'')"
    by (subst getGenshinRegion_nonneg) (simp_all only: leading_digit_601234567 if_True, simp)
  have e: "getGenshinRegion 701234567 = Inr (str ''os_euro'')"
    by (subst getGenshinRegion_nonneg) (simp_all only: leading_digit_701234567, simp_all)
  from g one u e show ?thesis by blast
qed

theorem getGenshinRegion_leading_digit_witness:
  "(0::int) \<le> 801234567 \<and> 801234567 \<le> MAX_SAFE_INTEGER
   \<and> leading_digit (nat 801234567) = 8
   \<and> getGenshinRegion 801234567 = Inr (str ''os_asia'')"
proof -
  have h: "(0::int) \<le> 801234567" "(801234567::int) \<le> MAX_SAFE_INTEGER"
    by (simp_all add: MAX_SAFE_INTEGER_def)
  have "getGenshinRegion 801234567 = Inr (str ''os_asia'')"
    using getGenshinRegion_leading_digit [OF h]
    by (simp only: leading_digit_801234567) simp
  with h leading_digit_801234567 show ?thesis by blast
qed

section \<open>Properties of send\<close>

subsection \<open>One attempt\<close>

lemma random_chars_world: "snd (random_chars n w) = w\<lparr>drawn := drawn w + n\<rparr>"
  by (induction n arbitrary: w) (simp_all add: Let_def case_prod_unfold)

lemma generateDS_world: "snd (generateDS w) = w\<lparr>drawn := drawn w + 6\<rparr>"
  by (simp add: generateDS_def Let_def case_prod_unfold random_chars_world)

lemma attach_DS_world:
  "snd (attach_DS r w) = (if ds r then w\<lparr>drawn := drawn w + 6\<rparr> else w)"
  by (simp add: attach_DS_def case_prod_unfold generateDS_world)

lemma signed_eq:
  "signed r w =
     r\<lparr>headers := (if ds r then obj_set (headers r) (str ''DS'') (fst (generateDS w))
                      else headers r)\<rparr>"
  by (simp add: signed_def attach_DS_def split: prod.splits)

lemma signed_fields [simp]:
  "retries (signed r w) = retries r"
  "body (signed r w) = body r"
  "params (signed r w) = params r"
  "cache (signed r w) = cache r"
  "ds (signed r w) = ds r"
  by (simp_all add: signed_eq)

lemma called_fields [simp]:
  "now (called r w url method) = now w + fst (network w (calls w))"
  "requests (called r w url method) = requests w @ [(url, config_of (signed r w) method)]"
  "network (called r w url method) = network w"
  "md5 (called r w url method) = md5 w"
  "stringify (called r w url method) = stringify w"
  "random (called r w url method) = random w"
  by (simp_all add: called_def axios_def attach_DS_world calls_def Let_def split: prod.splits)

lemma calls_called [simp]: "calls (called r w url method) = Suc (calls w)"
  by (simp add: calls_def)

lemma send_body_hit:
  assumes "cache_hit r w url method"
  shows "send_body r w url method ttl =
           Done (Inr (FromCache, Cache_get w (cache r) (cacheKey_of r url method))) r w"
  using assms by (simp add: send_body_def cache_hit_def cacheKey_of_def Let_def)

lemma send_body_miss:
  assumes "\<not> cache_hit r w url method"
  shows "send_body r w url method ttl =
           (if raises (next_outcome w)
            then Done (Inl (raised (next_outcome w))) (signed r w) (called r w url method)
            else if swallowed (next_outcome w)
            then Done (Inr (FromCatch, sentinel)) (signed r w) (called r w url method)
            else if rate_limited (next_outcome w) \<and> retries r \<le> 60
            then Retry ((signed r w)\<lparr>retries := retries r + 1\<rparr>)
                       (delay 1 (called r w url method))
            else Done (Inr (FromNetwork, response_data (next_outcome w)))
                   ((signed r w)\<lparr>cache := Cache_set (called r w url method) (cache r)
                                              (cacheKey_of r url method)
                                              (response_data (next_outcome w)) ttl,
                                  retries := 1, body := []\<rparr>)
                   (called r w url method))"
proof -
  have o: "fst (axios (snd (attach_DS r w)) url c) = next_outcome w" for c
    by (simp add: axios_def attach_DS_world next_outcome_def calls_def Let_def case_prod_unfold)
  note unfold = send_body_def Let_def case_prod_unfold o signed_def called_def config_of_def
    cacheKey_of_def cache_hit_def signed_fields [unfolded signed_def]
  show ?thesis
  proof (cases "next_outcome w")
    case (Rejected code message)
    with assms show ?thesis by (simp add: unfold)
  next
    case (Response status statusText result)
    with assms show ?thesis
      by (cases result; cases statusText; simp add: unfold)
  qed
qed


lemma rate_limited_not_raises: "rate_limited out \<Longrightarrow> \<not> raises out \<and> \<not> swallowed out"
  by (cases out) auto

lemma send_body_RetryE:
  assumes "send_body r w url method ttl = Retry r1 w1"
  obtains "\<not> cache_hit r w url method" and "rate_limited (next_outcome w)"
    and "retries r \<le> 60"
    and "r1 = (signed r w)\<lparr>retries := retries r + 1\<rparr>"
    and "w1 = delay 1 (called r w url method)"
proof (cases "cache_hit r w url method")
  case True
  with assms show ?thesis by (simp add: send_body_hit)
next
  case False
  note eq = assms [unfolded send_body_miss [OF False]]
  from eq have l: "rate_limited (next_outcome w)" and c: "retries r \<le> 60"
    by (simp_all split: if_splits)
  with eq have "r1 = (signed r w)\<lparr>retries := retries r + 1\<rparr>"
    and "w1 = delay 1 (called r w url method)"
    by (simp_all add: rate_limited_not_raises)
  with False l c show ?thesis by (rule that)
qed

lemma send_body_DoneE [consumes 1, case_names Hit Raise Swallow Fresh]:
  assumes "send_body r w url method ttl = Done res r' w'"
  obtains
    (Hit) "cache_hit r w url method"
      and "res = Inr (FromCache, Cache_get w (cache r) (cacheKey_of r url method))"
      and "r' = r" and "w' = w"
  | (Raise) "\<not> cache_hit r w url method" and "raises (next_outcome w)"
      and "res = Inl (raised (next_outcome w))"
      and "r' = signed r w" and "w' = called r w url method"
  | (Swallow) "\<not> cache_hit r w url method" and "\<not> raises (next_outcome w)"
      and "swallowed (next_outcome w)"
      and "res = Inr (FromCatch, sentinel)"
      and "r' = signed r w" and "w' = called r w url method"
  | (Fresh) "\<not> cache_hit r w url method" and "\<not> raises (next_outcome w)"
      and "\<not> swallowed (next_outcome w)"
      and "\<not> (rate_limited (next_outcome w) \<and> retries r \<le> 60)"
      and "res = Inr (FromNetwork, response_data (next_outcome w))"
      and "r' = (signed r w)\<lparr>cache := Cache_set (called r w url method) (cache r)
                                         (cacheKey_of r url method)
                                         (response_data (next_outcome w)) ttl,
                              retries := 1, body := []\<rparr>"
      and "w' = called r w url method"
proof (cases "cache_hit r w url method")
  case True
  with assms have "res = Inr (FromCache, Cache_get w (cache r) (cacheKey_of r url method))"
    and "r' = r" and "w' = w"
    by (auto simp add: send_body_hit)
  with True show ?thesis by (rule Hit)
next
  case False
  note eq = assms [unfolded send_body_miss [OF False]]
  show ?thesis
  proof (cases "raises (next_outcome w)")
    case True
    with eq have "res = Inl (raised (next_outcome w))"
      and "r' = signed r w" and "w' = called r w url method"
      by auto
    with False True show ?thesis by (rule Raise)
  next
    case nr: False
    show ?thesis
    proof (cases "swallowed (next_outcome w)")
      case True
      with eq nr have "res = Inr (FromCatch, sentinel)"
        and "r' = signed r w" and "w' = called r w url method"
        by auto
      with False nr True show ?thesis by (rule Swallow)
    next
      case ns: False
      show ?thesis
      proof (cases "rate_limited (next_outcome w) \<and> retries r \<le> 60")
        case True
        with eq nr ns show ?thesis by simp
      next
        case nl: False
        with eq nr ns have "res = Inr (FromNetwork, response_data (next_outcome w))"
          and "r' = (signed r w)\<lparr>cache := Cache_set (called r w url method) (cache r)
                                         (cacheKey_of r url method)
                                         (response_data (next_outcome w)) ttl,
                              retries := 1, body := []\<rparr>"
          and "w' = called r w url method"
          by auto
        with False nr ns nl show ?thesis by (rule Fresh)
      qed
    qed
  qed
qed

subsection \<open>The retry loop\<close>

lemma send_Done:
  "send_body r w url method ttl = Done res r' w' \<Longrightarrow> send r w url method ttl = (res, r', w')"
  by (subst send.simps) simp

lemma send_Retry:
  "send_body r w url method ttl = Retry r1 w1 \<Longrightarrow>
     send r w url method ttl = send r1 w1 url method None"
  by (subst send.simps) simp

lemma send_induct [consumes 1, case_names Done Retry]:
  assumes "send r w url method ttl = (res, r', w')"
    and "\<And>r w ttl. send_body r w url method ttl = Done res r' w' \<Longrightarrow> P r w ttl"
    and "\<And>r w ttl r1 w1.
           send_body r w url method ttl = Retry r1 w1 \<Longrightarrow>
           send r1 w1 url method None = (res, r', w') \<Longrightarrow>
           P r1 w1 None \<Longrightarrow> P r w ttl"
  shows "P r w ttl"
proof -
  have "u = url \<Longrightarrow> m = method \<Longrightarrow> send r w u m ttl = (res, r', w') \<Longrightarrow> P r w ttl" for u m
  proof (induction r w u m ttl rule: send.induct)
    case (1 r w u m ttl)
    show ?case
    proof (cases "send_body r w u m ttl")
      case (Done res0 r0 w0)
      with "1.prems" have "send_body r w url method ttl = Done res r' w'"
        by (auto simp add: send_Done)
      then show ?thesis by (rule assms(2))
    next
      case (Retry r1 w1)
      with "1.prems" have s: "send r1 w1 u m None = (res, r', w')"
        by (simp add: send_Retry)
      from "1.IH" [OF Retry "1.prems"(1,2) s] have p: "P r1 w1 None" .
      from Retry s "1.prems" have "send_body r w url method ttl = Retry r1 w1"
        and "send r1 w1 url method None = (res, r', w')"
        by simp_all
      then show ?thesis using p by (rule assms(3))
    qed
  qed
  with assms(1) show ?thesis by simp
qed

lemma NodeCache_get_later:
  "\<not> truthy (NodeCache_get t store k) \<Longrightarrow> t \<le> t' \<Longrightarrow> \<not> truthy (NodeCache_get t' store k)"
  by (auto simp: NodeCache_get_def split: option.splits if_splits)

lemma cache_miss_retry:
  assumes "\<not> cache_hit r w url method"
  shows "\<not> cache_hit ((signed r w)\<lparr>retries := n\<rparr>) (delay 1 (called r w url method)) url method"
proof -
  have "now w \<le> now (delay 1 (called r w url method))"
    by (simp add: delay_def)
  with assms show ?thesis
    by (simp add: cache_hit_def Cache_get_def generateKey_def cacheKey_of_def delay_def
          NodeCache_get_later)
qed

lemma map_of_obj_set: "map_of (obj_set kvs k v) = (map_of kvs)(k \<mapsto> v)"
  by (induction kvs) (auto simp: fun_eq_iff)

lemma obj_set_twice: "obj_set (obj_set c k a) k b = obj_set c k b"
  by (induction c) auto

lemma headers_signed:
  "\<not> ds r \<Longrightarrow> headers (signed r w) = headers r"
  "k \<noteq> str ''DS'' \<Longrightarrow> map_of (headers (signed r w)) k = map_of (headers r) k"
  by (simp_all add: signed_eq map_of_obj_set)

lemma delay_fields [simp]:
  "now (delay s w) = now w + s * 1000"
  "requests (delay s w) = requests w"
  "network (delay s w) = network w"
  "md5 (delay s w) = md5 w"
  "stringify (delay s w) = stringify w"
  "calls (delay s w) = calls w"
  by (simp_all add: delay_def calls_def)

lemma Cache_set_stdTTL [simp]: "stdTTL (Cache_set w c key v ttl) = stdTTL c"
  by (simp add: Cache_set_def Let_def)

lemma cacheKey_of_retry [simp]:
  "cacheKey_of ((signed r w)\<lparr>retries := n\<rparr>) url method = cacheKey_of r url method"
  by (simp add: cacheKey_of_def)

lemma send_always:
  assumes "send r w url method ttl = (res, r', w')"
  shows "params r' = params r \<and> ds r' = ds r \<and> stdTTL (cache r') = stdTTL (cache r)
         \<and> network w' = network w \<and> md5 w' = md5 w \<and> stringify w' = stringify w
         \<and> calls w \<le> calls w' \<and> now w \<le> now w'
         \<and> (\<not> ds r \<longrightarrow> headers r' = headers r)
         \<and> (\<forall>k. k \<noteq> str ''DS'' \<longrightarrow> map_of (headers r') k = map_of (headers r) k)
         \<and> (1 \<le> retries r \<longrightarrow> 1 \<le> retries r')"
  using assms
proof (induction rule: send_induct)
  case (Done r w ttl)
  then show ?case
    by (cases rule: send_body_DoneE) (simp_all add: headers_signed)
next
  case (Retry r w ttl r1 w1)
  from Retry(1) show ?case
  proof (rule send_body_RetryE)
    assume "r1 = (signed r w)\<lparr>retries := retries r + 1\<rparr>"
      and "w1 = delay 1 (called r w url method)"
    with Retry(3) show ?thesis by (simp add: headers_signed)
  qed
qed

lemma send_outcome:
  assumes "send r w url method ttl = (res, r', w')"
  shows "(\<forall>v. res = Inr (FromCache, v) \<longrightarrow>
            cache_hit r w url method \<and> r' = r \<and> w' = w
            \<and> v = Cache_get w (cache r) (cacheKey_of r url method))
         \<and> (\<forall>e. res = Inl e \<longrightarrow>
               calls w < calls w' \<and> raises (snd (network w (calls w' - 1)))
               \<and> e = raised (snd (network w (calls w' - 1))))
         \<and> (\<forall>v. res = Inr (FromCatch, v) \<longrightarrow>
               calls w < calls w' \<and> \<not> raises (snd (network w (calls w' - 1)))
               \<and> swallowed (snd (network w (calls w' - 1))) \<and> v = sentinel)
         \<and> (\<forall>v. res = Inr (FromNetwork, v) \<longrightarrow>
               calls w < calls w' \<and> \<not> raises (snd (network w (calls w' - 1)))
               \<and> \<not> swallowed (snd (network w (calls w' - 1)))
               \<and> v = response_data (snd (network w (calls w' - 1))))"
  using assms
proof (induction rule: send_induct)
  case (Done r w ttl)
  then show ?case
    by (cases rule: send_body_DoneE) (simp_all add: next_outcome_def)
next
  case (Retry r w ttl r1 w1)
  from Retry(1) show ?case
  proof (rule send_body_RetryE)
    assume miss: "\<not> cache_hit r w url method"
      and r1: "r1 = (signed r w)\<lparr>retries := retries r + 1\<rparr>"
      and w1: "w1 = delay 1 (called r w url method)"
    from miss have "\<not> cache_hit r1 w1 url method"
      unfolding r1 w1 by (rule cache_miss_retry)
    moreover have "calls w1 = Suc (calls w)" "network w1 = network w"
      by (simp_all add: w1)
    ultimately show ?thesis using Retry(3) by auto
  qed
qed

lemma send_error_frame:
  assumes "send r w url method ttl = (res, r', w')"
    and "isl res \<or> (\<exists>v. res = Inr (FromCatch, v))"
  shows "cache r' = cache r \<and> body r' = body r
         \<and> retries r' + 1 = retries r + (calls w' - calls w)"
  using assms
proof (induction rule: send_induct)
  case (Done r w ttl)
  from Done(1) show ?case
    using Done(2) by (cases rule: send_body_DoneE) auto
next
  case (Retry r w ttl r1 w1)
  from Retry(1) show ?case
  proof (rule send_body_RetryE)
    assume r1: "r1 = (signed r w)\<lparr>retries := retries r + 1\<rparr>"
      and w1: "w1 = delay 1 (called r w url method)"
    have "calls w1 \<le> calls w'"
      using send_always [OF Retry(2)] by simp
    moreover have "calls w1 = Suc (calls w)" by (simp add: w1)
    ultimately show ?thesis using Retry(3) [OF Retry(4)] by (simp add: r1)
  qed
qed

lemma send_fresh:
  assumes "send r w url method ttl = (res, r', w')"
    and "res = Inr (FromNetwork, v)"
  shows "body r' = [] \<and> retries r' = 1
         \<and> cache r' = Cache_set w' (cache r) (cacheKey_of r url method) v
                         (if calls w' = calls w + 1 then ttl else None)"
  using assms
proof (induction rule: send_induct)
  case (Done r w ttl)
  from Done(1) show ?case
    using Done(2) by (cases rule: send_body_DoneE) auto
next
  case (Retry r w ttl r1 w1)
  from Retry(1) show ?case
  proof (rule send_body_RetryE)
    assume r1: "r1 = (signed r w)\<lparr>retries := retries r + 1\<rparr>"
      and w1: "w1 = delay 1 (called r w url method)"
    have "calls w1 < calls w'"
      using send_outcome [OF Retry(2)] Retry(4) by simp
    moreover have "calls w1 = Suc (calls w)" by (simp add: w1)
    ultimately show ?thesis using Retry(3) [OF Retry(4)] by (simp add: r1)
  qed
qed

lemma send_calls_bound:
  assumes "send r w url method ttl = (res, r', w')"
  shows "calls w' \<le> calls w + max 1 (62 - retries r)"
  using assms
proof (induction rule: send_induct)
  case (Done r w ttl)
  then show ?case
    by (cases rule: send_body_DoneE) simp_all
next
  case (Retry r w ttl r1 w1)
  from Retry(1) show ?case
  proof (rule send_body_RetryE)
    assume "r1 = (signed r w)\<lparr>retries := retries r + 1\<rparr>"
      and "w1 = delay 1 (called r w url method)"
      and "retries r \<le> 60"
    with Retry(3) show ?thesis by simp
  qed
qed

lemma send_retried_calls:
  assumes "send r w url method ttl = (res, r', w')"
  shows "\<forall>i. calls w \<le> i \<and> Suc i < calls w' \<longrightarrow> rate_limited (snd (network w i))"
  using assms
proof (induction rule: send_induct)
  case (Done r w ttl)
  then show ?case
    by (cases rule: send_body_DoneE) auto
next
  case (Retry r w ttl r1 w1)
  from Retry(1) show ?case
  proof (rule send_body_RetryE)
    assume l: "rate_limited (next_outcome w)"
      and w1: "w1 = delay 1 (called r w url method)"
    have c: "calls w1 = Suc (calls w)" "network w1 = network w"
      by (simp_all add: w1)
    show ?thesis
    proof (intro allI impI)
      fix i
      assume i: "calls w \<le> i \<and> Suc i < calls w'"
      show "rate_limited (snd (network w i))"
      proof (cases "i = calls w")
        case True
        with l show ?thesis by (simp add: next_outcome_def)
      next
        case False
        with i have "calls w1 \<le> i \<and> Suc i < calls w'" by (simp add: c)
        with Retry(3) show ?thesis by (simp add: c)
      qed
    qed
  qed
qed

lemma send_not_retried:
  assumes "send r w url method ttl = (res, r', w')" and "\<not> cache_hit r w url method"
    and "\<not> (rate_limited (next_outcome w) \<and> retries r \<le> 60)"
  shows "w' = called r w url method"
proof (cases "send_body r w url method ttl")
  case (Done res0 r0 w0)
  with assms(1) have "send_body r w url method ttl = Done res r' w'"
    by (simp add: send_Done)
  then show ?thesis
    using assms(2) by (cases rule: send_body_DoneE) simp_all
next
  case (Retry r1 w1)
  then show ?thesis
  proof (rule send_body_RetryE)
    assume "rate_limited (next_outcome w)" and "retries r \<le> 60"
    with assms(3) show ?thesis by simp
  qed
qed

lemma attempt_ds [simp]: "ds (fst (attempt r w url method k)) = ds r"
  by (induction k arbitrary: r w) simp_all

lemma attempt_headers:
  assumes "ds r"
  shows "obj_set (headers (fst (attempt r w url method k))) (str ''DS'') d =
           obj_set (headers r) (str ''DS'') d"
  using assms
proof (induction k arbitrary: r w)
  case 0
  show ?case by simp
next
  case (Suc k)
  let ?r1 = "(signed r w)\<lparr>retries := retries r + 1\<rparr>"
  have "ds ?r1" using Suc.prems by simp
  from Suc.IH [OF this]
  have "obj_set (headers (fst (attempt r w url method (Suc k)))) (str ''DS'') d =
          obj_set (headers ?r1) (str ''DS'') d"
    by simp
  also have "\<dots> = obj_set (headers r) (str ''DS'') d"
    using Suc.prems by (simp add: signed_eq obj_set_twice)
  finally show ?case .
qed

lemma send_error_state:
  assumes "send r w url method ttl = (res, r', w')"
    and "isl res \<or> (\<exists>v. res = Inr (FromCatch, v))"
  shows "r' = signed (fst (attempt r w url method (calls w' - calls w - 1)))
                     (snd (attempt r w url method (calls w' - calls w - 1)))"
  using assms
proof (induction rule: send_induct)
  case (Done r w ttl)
  from Done(1) show ?case
    using Done(2) by (cases rule: send_body_DoneE) auto
next
  case (Retry r w ttl r1 w1)
  from Retry(1) show ?case
  proof (rule send_body_RetryE)
    assume r1: "r1 = (signed r w)\<lparr>retries := retries r + 1\<rparr>"
      and w1: "w1 = delay 1 (called r w url method)"
    have "calls w1 < calls w'"
      using send_outcome [OF Retry(2)] Retry(4) by (cases res) auto
    moreover have "calls w1 = Suc (calls w)" by (simp add: w1)
    ultimately have "calls w' - calls w - 1 = Suc (calls w' - calls w1 - 1)" by arith
    with Retry(3) [OF Retry(4)] show ?thesis by (simp add: r1 w1)
  qed
qed

lemma send_error_headers:
  assumes "send r w url method ttl = (res, r', w')"
    and "isl res \<or> (\<exists>v. res = Inr (FromCatch, v))" and "ds r"
  shows "headers r' =
           obj_set (headers r) (str ''DS'')
             (fst (generateDS (snd (attempt r w url method (calls w' - calls w - 1)))))"
proof -
  let ?a = "attempt r w url method (calls w' - calls w - 1)"
  have "headers r' = headers (signed (fst ?a) (snd ?a))"
    using send_error_state [OF assms(1,2)] by simp
  also have "\<dots> = obj_set (headers (fst ?a)) (str ''DS'') (fst (generateDS (snd ?a)))"
    using assms(3) by (simp add: signed_eq)
  also have "\<dots> = obj_set (headers r) (str ''DS'') (fst (generateDS (snd ?a)))"
    using assms(3) by (rule attempt_headers)
  finally show ?thesis .
qed

lemma empty_cache_miss: "nodeCache (cache r) = Map.empty \<Longrightarrow> \<not> cache_hit r w url method"
  by (simp add: cache_hit_def Cache_get_def NodeCache_get_def)

lemma random_chars_example:
  "random w = (\<lambda>k. 0) \<Longrightarrow> fst (random_chars n w) = replicate n 97"
  by (induction n arbitrary: w)
     (simp_all add: charAt_def characters_def str_def Let_def case_prod_unfold)

subsection \<open>Evaluating a send\<close>

lemma send_hit_eval:
  assumes "cache_hit r w url method"
  shows "send r w url method ttl =
           (Inr (FromCache, Cache_get w (cache r) (cacheKey_of r url method)), r, w)"
  using assms by (simp add: send_Done send_body_hit)

lemma send_raise_eval:
  assumes "\<not> cache_hit r w url method" and "raises (next_outcome w)"
  shows "send r w url method ttl =
           (Inl (raised (next_outcome w)), signed r w, called r w url method)"
  using assms by (simp add: send_Done send_body_miss)

lemma send_swallow_eval:
  assumes "\<not> cache_hit r w url method" and "\<not> raises (next_outcome w)"
    and "swallowed (next_outcome w)"
  shows "send r w url method ttl =
           (Inr (FromCatch, sentinel), signed r w, called r w url method)"
  using assms by (simp add: send_Done send_body_miss)

lemma send_retry_eval:
  assumes "\<not> cache_hit r w url method" and "rate_limited (next_outcome w)"
    and "retries r \<le> 60"
  shows "send r w url method ttl =
           send ((signed r w)\<lparr>retries := retries r + 1\<rparr>) (delay 1 (called r w url method))
             url method None"
  using assms by (simp add: send_Retry send_body_miss rate_limited_not_raises)

lemma send_fresh_eval:
  assumes "\<not> cache_hit r w url method" and "\<not> raises (next_outcome w)"
    and "\<not> swallowed (next_outcome w)" and "\<not> rate_limited (next_outcome w)"
  shows "send r w url method ttl =
           (Inr (FromNetwork, response_data (next_outcome w)),
            (signed r w)\<lparr>cache := Cache_set (called r w url method) (cache r)
                                       (cacheKey_of r url method)
                                       (response_data (next_outcome w)) ttl,
                           retries := 1, body := []\<rparr>,
            called r w url method)"
  using assms by (simp add: send_Done send_body_miss)

lemma example_request_miss: "\<not> cache_hit example_request w url method"
  by (simp add: cache_hit_def Cache_get_def NodeCache_get_def example_request_def setBody_def
        new_Request_def new_Cache_def)

lemma next_outcome_example [simp]: "next_outcome (example_world f) = f 0"
  by (simp add: next_outcome_def example_world_def calls_def)

lemma calls_example [simp]: "calls (example_world f) = 0"
  by (simp add: calls_def example_world_def)

lemma network_example [simp]: "network (example_world f) k = (0, f k)"
  by (simp add: example_world_def)

lemma now_example [simp]: "now (example_world f) = 0"
  by (simp add: example_world_def)

lemma body_example_request: "body example_request = [(str ''act_id'', Str (str ''e2020''))]"
  by (simp add: example_request_def setBody_def new_Request_def obj_spread_def)

lemma envelope_props [simp]:
  "get_prop (envelope retcode) (str ''retcode'') = Inr (Num retcode)"
  "envelope retcode \<noteq> Undefined" "envelope retcode \<noteq> Null"
  by (simp_all add: envelope_def obj_get_def str_def)

lemma new_Request_miss: "\<not> cache_hit (new_Request None) w url method"
  by (simp add: cache_hit_def Cache_get_def NodeCache_get_def new_Request_def new_Cache_def)

lemma world_example [simp]:
  "random (example_world f) = (\<lambda>k. 0)" "md5 (example_world f) = (\<lambda>s. s)"
  by (simp_all add: example_world_def)

lemma delay_random [simp]: "random (delay s w) = random w"
  by (simp add: delay_def)

lemma generateDS_example:
  assumes "random w = (\<lambda>k. 0)" and "md5 w = (\<lambda>s. s)"
  shows "fst (generateDS w) =
           digits_of (now w div 1000)
           @ str '',aaaaaa,salt=6s25p5ox5y14umn1p61aqyyvbvvl3lrt&t=''
           @ digits_of (now w div 1000) @ str ''&r=aaaaaa''"
proof -
  have "fst (random_chars 6 w) = str ''aaaaaa''"
    using random_chars_example [OF assms(1), of 6] by (simp add: str_def eval_nat_numeral)
  then show ?thesis
    by (simp add: generateDS_def Let_def case_prod_unfold assms(2) str_def)
qed

lemma signing_request_fields:
  "ds signing_request" "retries signing_request = 1"
  "nodeCache (cache signing_request) = Map.empty"
  "map_of (headers signing_request) (str ''DS'') = None"
  by (simp_all add: signing_request_def setDs_def new_Request_def new_Cache_def str_def)

lemma send_limited_then_rejected:
  assumes "nodeCache (cache r) = Map.empty" and "retries r \<le> 60"
  shows "send r (example_world limited_then_rejected) url method ttl =
           (Inl (raised (always_rejected 1)),
            signed ((signed r (example_world limited_then_rejected))\<lparr>retries := retries r + 1\<rparr>)
              (delay 1 (called r (example_world limited_then_rejected) url method)),
            called ((signed r (example_world limited_then_rejected))\<lparr>retries := retries r + 1\<rparr>)
              (delay 1 (called r (example_world limited_then_rejected) url method)) url method)"
proof -
  let ?w = "example_world limited_then_rejected"
  let ?r1 = "(signed r ?w)\<lparr>retries := retries r + 1\<rparr>"
  let ?w1 = "delay 1 (called r ?w url method)"
  have miss: "\<not> cache_hit r ?w url method"
    using assms(1) by (rule empty_cache_miss)
  have l: "rate_limited (next_outcome ?w)"
    by (simp add: limited_then_rejected_def always_2016_def)
  from miss l assms(2) have a: "send r ?w url method ttl = send ?r1 ?w1 url method None"
    by (rule send_retry_eval)
  have m: "\<not> cache_hit ?r1 ?w1 url method"
    using miss by (rule cache_miss_retry)
  have o: "next_outcome ?w1 = always_rejected 1"
    by (simp add: next_outcome_def limited_then_rejected_def)
  then have "raises (next_outcome ?w1)" by (simp add: always_rejected_def)
  with m have "send ?r1 ?w1 url method None =
      (Inl (raised (next_outcome ?w1)), signed ?r1 ?w1, called ?r1 ?w1 url method)"
    by (rule send_raise_eval)
  with a o show ?thesis by simp
qed

subsection \<open>Retry on the return code -2016\<close>

lemma all_rate_limited:
  assumes "retries r + k = 61" and "\<not> cache_hit r w url method"
    and "\<forall>i\<le>k. rate_limited (snd (network w (calls w + i)))"
  shows "fst (send r w url method ttl) =
           Inr (FromNetwork, response_data (snd (network w (calls w + k))))
         \<and> calls (snd (snd (send r w url method ttl))) = calls w + k + 1"
  using assms
proof (induction k arbitrary: r w ttl)
  case 0
  then have l: "rate_limited (next_outcome w)" and r: "retries r = 61"
    by (simp_all add: next_outcome_def)
  have "send_body r w url method ttl =
          Done (Inr (FromNetwork, response_data (next_outcome w)))
            ((signed r w)\<lparr>cache := Cache_set (called r w url method) (cache r)
                                         (cacheKey_of r url method)
                                         (response_data (next_outcome w)) ttl,
                              retries := 1, body := []\<rparr>)
            (called r w url method)"
    using "0.prems"(2) l r by (simp add: send_body_miss rate_limited_not_raises)
  then show ?case
    by (simp add: send_Done next_outcome_def)
next
  case (Suc k)
  let ?r1 = "(signed r w)\<lparr>retries := retries r + 1\<rparr>"
  let ?w1 = "delay 1 (called r w url method)"
  from Suc.prems(3) [rule_format, of 0] Suc.prems(1)
  have l: "rate_limited (next_outcome w)" and r: "retries r \<le> 60"
    by (simp_all add: next_outcome_def)
  have "send_body r w url method ttl = Retry ?r1 ?w1"
    using Suc.prems(2) l r by (simp add: send_body_miss rate_limited_not_raises)
  then have s: "send r w url method ttl = send ?r1 ?w1 url method None"
    by (rule send_Retry)
  have a: "retries ?r1 + k = 61" using Suc.prems(1) by simp
  have b: "\<not> cache_hit ?r1 ?w1 url method"
    using Suc.prems(2) by (rule cache_miss_retry)
  have c: "\<forall>i\<le>k. rate_limited (snd (network ?w1 (calls ?w1 + i)))"
    using Suc.prems(3) by auto
  from Suc.IH [OF a b c, of None] show ?case
    by (simp add: s)
qed

lemma toString_202: "toString_int 202 = str ''202''"
  by (simp add: toString_int_def digits_of.simps str_def)

text \<open>
  C1, as stated, fails: here the response carries the return code -2016 and the retry
  counter is 1, but the status of the response is 202. The test of the status comes
  first in send: it throws after this one transport call and does not retry.
\<close>

theorem send_2016_with_status_202_throws:
  "next_outcome (example_world accepted_2016) =
     Response 202 (Some (str ''Accepted'')) (envelope (- 2016))
   \<and> get_prop (envelope (- 2016)) (str ''retcode'') = Inr (Num (- 2016))
   \<and> retries (new_Request None) = 1
   \<and> fst (send (new_Request None) (example_world accepted_2016) RedeemRoute_redeem GET None) =
       Inl (HoyolabRequestError (Some (str ''202'')) (Str (str ''Accepted'')))
   \<and> calls (snd (snd (send (new_Request None) (example_world accepted_2016)
                         RedeemRoute_redeem GET None))) = 1
   \<and> retries (fst (snd (send (new_Request None) (example_world accepted_2016)
                           RedeemRoute_redeem GET None))) = 1"
proof -
  let ?r = "new_Request None"
  let ?w = "example_world accepted_2016"
  have o: "next_outcome ?w = Response 202 (Some (str ''Accepted'')) (envelope (- 2016))"
    by (simp add: accepted_2016_def)
  then have "raises (next_outcome ?w)" by simp
  then have e: "send ?r ?w RedeemRoute_redeem GET None =
      (Inl (raised (next_outcome ?w)), signed ?r ?w, called ?r ?w RedeemRoute_redeem GET)"
    by (simp add: send_raise_eval new_Request_miss)
  have r: "retries ?r = 1" by (simp add: new_Request_def)
  from o r show ?thesis
    unfolding e by (simp add: toString_202)
qed

text \<open>
  C1, amended. When a send misses the cache, the response has the status 200 or 201 and
  the return code -2016, and the retry counter is at most 60, send increments the counter,
  waits one second and calls itself with the same url and method and no ttl. With a
  counter of at least 1 (it starts at 1 and is never lower) one call of send makes at most
  61 transport calls, that is at most 60 retries; from a counter of 1 and 61 consecutive
  -2016 responses of status 200 or 201, the 61st is returned as the result of the network,
  without another transport call. A send that misses the cache and gets any other outcome,
  or has a counter above 60, makes this one transport call and no retry.
\<close>

theorem send_retries_on_2016:
  assumes "1 \<le> retries r"
  shows "(\<not> cache_hit r w url method \<and> rate_limited (next_outcome w) \<and> retries r \<le> 60 \<longrightarrow>
            send r w url method ttl =
              send ((signed r w)\<lparr>retries := retries r + 1\<rparr>)
                   (delay 1 (called r w url method)) url method None
            \<and> now (delay 1 (called r w url method)) = now (called r w url method) + 1000)
         \<and> calls (snd (snd (send r w url method ttl))) \<le> calls w + 61
         \<and> (retries r = 1 \<and> \<not> cache_hit r w url method
              \<and> (\<forall>i<61. rate_limited (snd (network w (calls w + i)))) \<longrightarrow>
              fst (send r w url method ttl) =
                Inr (FromNetwork, response_data (snd (network w (calls w + 60))))
              \<and> calls (snd (snd (send r w url method ttl))) = calls w + 61)
         \<and> (\<not> cache_hit r w url method
              \<and> \<not> (rate_limited (next_outcome w) \<and> retries r \<le> 60) \<longrightarrow>
              calls (snd (snd (send r w url method ttl))) = calls w + 1)"
proof (intro conjI impI)
  assume a: "\<not> cache_hit r w url method \<and> rate_limited (next_outcome w) \<and> retries r \<le> 60"
  then have "send_body r w url method ttl =
               Retry ((signed r w)\<lparr>retries := retries r + 1\<rparr>) (delay 1 (called r w url method))"
    by (simp add: send_body_miss rate_limited_not_raises)
  then show "send r w url method ttl =
               send ((signed r w)\<lparr>retries := retries r + 1\<rparr>)
                    (delay 1 (called r w url method)) url method None"
    by (rule send_Retry)
  show "now (delay 1 (called r w url method)) = now (called r w url method) + 1000"
    by simp
next
  obtain res r' w' where s: "send r w url method ttl = (res, r', w')"
    by (cases "send r w url method ttl")
  from send_calls_bound [OF s] assms
  show "calls (snd (snd (send r w url method ttl))) \<le> calls w + 61"
    by (simp add: s)
next
  assume a: "retries r = 1 \<and> \<not> cache_hit r w url method
              \<and> (\<forall>i<61. rate_limited (snd (network w (calls w + i))))"
  then have "retries r + 60 = 61" and "\<not> cache_hit r w url method"
    and "\<forall>i\<le>60. rate_limited (snd (network w (calls w + i)))"
    by auto
  from all_rate_limited [OF this, of ttl]
  show "fst (send r w url method ttl) =
          Inr (FromNetwork, response_data (snd (network w (calls w + 60))))"
    and "calls (snd (snd (send r w url method ttl))) = calls w + 61"
    by simp_all
next
  assume a: "\<not> cache_hit r w url method
              \<and> \<not> (rate_limited (next_outcome w) \<and> retries r \<le> 60)"
  obtain res r' w' where s: "send r w url method ttl = (res, r', w')"
    by (cases "send r w url method ttl")
  from a have "w' = called r w url method"
    by (intro send_not_retried [OF s]) simp_all
  then show "calls (snd (snd (send r w url method ttl))) = calls w + 1"
    by (simp add: s)
qed

theorem send_retries_on_2016_witness:
  "1 \<le> retries (new_Request None)
   \<and> \<not> cache_hit (new_Request None) (example_world always_2016) RedeemRoute_redeem GET
   \<and> rate_limited (next_outcome (example_world always_2016))
   \<and> retries (new_Request None) \<le> 60
   \<and> retries (new_Request None) = 1
   \<and> fst (send (new_Request None) (example_world always_2016) RedeemRoute_redeem GET (Some 5)) =
       Inr (FromNetwork, envelope (- 2016))
   \<and> calls (snd (snd (send (new_Request None) (example_world always_2016) RedeemRoute_redeem GET (Some 5)))) = 61
   \<and> \<not> rate_limited (next_outcome (example_world always_ok))
   \<and> calls (snd (snd (send (new_Request None) (example_world always_ok) RedeemRoute_redeem GET (Some 5)))) = 1"
proof -
  have r: "retries (new_Request None) = 1" by (simp add: new_Request_def)
  have l: "rate_limited (always_2016 k)" for k
    by (simp add: always_2016_def)
  have d: "response_data (always_2016 k) = envelope (- 2016)" for k
    by (simp add: always_2016_def)
  have n: "\<not> rate_limited (always_ok 0)"
    by (simp add: always_ok_def)
  have "1 \<le> retries (new_Request None)" by (simp add: r)
  note t = send_retries_on_2016 [OF this, of _ RedeemRoute_redeem GET "Some 5"]
  from t [of "example_world always_2016", THEN conjunct2, THEN conjunct2, THEN conjunct1]
  have a: "fst (send (new_Request None) (example_world always_2016) RedeemRoute_redeem GET (Some 5)) =
          Inr (FromNetwork, envelope (- 2016))
        \<and> calls (snd (snd (send (new_Request None) (example_world always_2016)
                                RedeemRoute_redeem GET (Some 5)))) = 61"
    by (simp add: r l d new_Request_miss)
  from t [of "example_world always_ok", THEN conjunct2, THEN conjunct2, THEN conjunct2]
  have b: "calls (snd (snd (send (new_Request None) (example_world always_ok)
                                RedeemRoute_redeem GET (Some 5)))) = 1"
    by (simp add: n new_Request_miss)
  from a b show ?thesis
    by (simp add: r l n new_Request_miss)
qed

subsection \<open>What a send leaves behind\<close>

text \<open>
  C3, as the spec states it, fails: a send that ends in a thrown transport error leaves the
  body as it was. Here the body holds one field before and after.
\<close>

theorem send_rejected_keeps_body:
  "isl (fst (send example_request (example_world always_rejected) RedeemRoute_redeem POST None))
   \<and> body (fst (snd (send example_request (example_world always_rejected)
                         RedeemRoute_redeem POST None))) \<noteq> []"
proof -
  have "raises (next_outcome (example_world always_rejected))"
    by (simp add: always_rejected_def)
  then have "send example_request (example_world always_rejected) RedeemRoute_redeem POST None =
      (Inl (raised (next_outcome (example_world always_rejected))),
       signed example_request (example_world always_rejected),
       called example_request (example_world always_rejected) RedeemRoute_redeem POST)"
    by (simp add: send_raise_eval example_request_miss)
  then show ?thesis by (simp add: body_example_request)
qed

text \<open>
  C3, amended. A send never changes the query parameters, and it changes the headers in
  the DS entry only, and only when the signature flag is set. When it returns the result of
  the network (at once or after -2016 retries) the body is empty and the retry counter is
  1; when it ends in any other way (cache hit, thrown transport error, swallowed exception)
  the body is as it was. When the result of the network is returned without a retry, it is
  stored in the cache under the key computed at the start, with the given ttl or else the
  default of the cache, at the time the response arrived.
\<close>

theorem send_effects:
  assumes "send r w url method ttl = (res, r', w')"
  shows "params r' = params r
         \<and> (\<not> ds r \<longrightarrow> headers r' = headers r)
         \<and> (\<forall>k. k \<noteq> str ''DS'' \<longrightarrow> map_of (headers r') k = map_of (headers r) k)
         \<and> ((\<exists>v. res = Inr (FromNetwork, v)) \<longrightarrow> body r' = [] \<and> retries r' = 1)
         \<and> ((\<nexists>v. res = Inr (FromNetwork, v)) \<longrightarrow> body r' = body r)
         \<and> (\<forall>v. res = Inr (FromNetwork, v) \<and> calls w' = calls w + 1 \<longrightarrow>
               nodeCache (cache r') (generateKey w' (cacheKey_of r url method)) =
                 Some \<lparr>entry_value = v, entry_stored = now w',
                       entry_ttl = (case ttl of None \<Rightarrow> stdTTL (cache r) | Some t \<Rightarrow> t)\<rparr>)"
proof -
  note always = send_always [OF assms]
  note outcome = send_outcome [OF assms]
  have fresh: "body r' = [] \<and> retries r' = 1" if "res = Inr (FromNetwork, v)" for v
    using send_fresh [OF assms that] by simp
  have other: "body r' = body r" if "\<nexists>v. res = Inr (FromNetwork, v)"
  proof (cases res)
    case (Inl e)
    then show ?thesis using send_error_frame [OF assms] by simp
  next
    case (Inr p)
    obtain site v where p: "p = (site, v)" by (cases p)
    show ?thesis
    proof (cases site)
      case FromCache
      with Inr p outcome show ?thesis by simp
    next
      case FromNetwork
      with Inr p that show ?thesis by simp
    next
      case FromCatch
      with Inr p show ?thesis using send_error_frame [OF assms] by simp
    qed
  qed
  have stored: "nodeCache (cache r') (generateKey w' (cacheKey_of r url method)) =
                 Some \<lparr>entry_value = v, entry_stored = now w',
                       entry_ttl = (case ttl of None \<Rightarrow> stdTTL (cache r) | Some t \<Rightarrow> t)\<rparr>"
    if "res = Inr (FromNetwork, v)" and "calls w' = calls w + 1" for v
    using send_fresh [OF assms that(1)] that(2)
    by (simp add: Cache_set_def NodeCache_set_def Let_def)
  from always fresh other stored show ?thesis by blast
qed


theorem send_effects_witness:
  "fst (send example_request (example_world always_ok) RedeemRoute_redeem POST (Some 60)) =
     Inr (FromNetwork, envelope 0)
   \<and> calls (snd (snd (send example_request (example_world always_ok)
                         RedeemRoute_redeem POST (Some 60)))) = 1
   \<and> body (fst (snd (send example_request (example_world always_ok)
                        RedeemRoute_redeem POST (Some 60)))) = []
   \<and> retries (fst (snd (send example_request (example_world always_ok)
                           RedeemRoute_redeem POST (Some 60)))) = 1
   \<and> params (fst (snd (send example_request (example_world always_ok)
                          RedeemRoute_redeem POST (Some 60)))) = params example_request
   \<and> headers (fst (snd (send example_request (example_world always_ok)
                           RedeemRoute_redeem POST (Some 60)))) = headers example_request
   \<and> nodeCache (cache (fst (snd (send example_request (example_world always_ok)
                                   RedeemRoute_redeem POST (Some 60)))))
        (generateKey (snd (snd (send example_request (example_world always_ok)
                                  RedeemRoute_redeem POST (Some 60))))
           (cacheKey_of example_request RedeemRoute_redeem POST)) =
      Some \<lparr>entry_value = envelope 0, entry_stored = 0, entry_ttl = 60\<rparr>"
proof -
  let ?w = "example_world always_ok"
  let ?r' = "(signed example_request ?w)
               \<lparr>cache := Cache_set (called example_request ?w RedeemRoute_redeem POST)
                           (cache example_request)
                           (cacheKey_of example_request RedeemRoute_redeem POST)
                           (response_data (next_outcome ?w)) (Some 60),
                retries := 1, body := []\<rparr>"
  let ?w' = "called example_request ?w RedeemRoute_redeem POST"
  have e: "send example_request ?w RedeemRoute_redeem POST (Some 60) =
             (Inr (FromNetwork, envelope 0), ?r', ?w')"
    using send_fresh_eval [of example_request ?w RedeemRoute_redeem POST "Some 60"]
    by (simp add: example_request_miss always_ok_def)
  have nds: "\<not> ds example_request"
    by (simp add: example_request_def setBody_def new_Request_def)
  have "calls ?w' = calls ?w + 1" by simp
  with send_effects [OF e] nds
  have "params ?r' = params example_request \<and> headers ?r' = headers example_request
        \<and> body ?r' = [] \<and> retries ?r' = 1
        \<and> nodeCache (cache ?r') (generateKey ?w' (cacheKey_of example_request RedeemRoute_redeem POST)) =
            Some \<lparr>entry_value = envelope 0, entry_stored = now ?w', entry_ttl = 60\<rparr>"
    by simp
  then show ?thesis
    unfolding e by simp
qed

subsection \<open>A send that ends in an error\<close>

text \<open>
  C10, as stated, fails: the Request state is changed by a send that ends in an error. A
  send whose first response has the return code -2016 and whose second transport call is
  rejected throws, and leaves the retry counter at 2 where it was 1. A send with the
  signature flag set whose only transport call is rejected throws, and leaves a DS header
  where there was none.
\<close>

theorem send_error_after_retry_changes_state:
  "isl (fst (send (new_Request None) (example_world limited_then_rejected)
               RedeemRoute_redeem GET None))
   \<and> retries (new_Request None) = 1
   \<and> retries (fst (snd (send (new_Request None) (example_world limited_then_rejected)
                           RedeemRoute_redeem GET None))) = 2
   \<and> fst (snd (send (new_Request None) (example_world limited_then_rejected)
                  RedeemRoute_redeem GET None)) \<noteq> new_Request None
   \<and> isl (fst (send signing_request (example_world always_rejected)
                  RedeemRoute_redeem GET None))
   \<and> calls (snd (snd (send signing_request (example_world always_rejected)
                         RedeemRoute_redeem GET None))) = 1
   \<and> map_of (headers signing_request) (str ''DS'') = None
   \<and> map_of (headers (fst (snd (send signing_request (example_world always_rejected)
                                   RedeemRoute_redeem GET None)))) (str ''DS'') =
       Some (str ''0,aaaaaa,salt=6s25p5ox5y14umn1p61aqyyvbvvl3lrt&t=0&r=aaaaaa'')"
proof -
  let ?r = "new_Request None"
  let ?w = "example_world limited_then_rejected"
  let ?v = "example_world always_rejected"
  have r: "retries ?r = 1" "nodeCache (cache ?r) = Map.empty"
    by (simp_all add: new_Request_def new_Cache_def)
  have a: "isl (fst (send ?r ?w RedeemRoute_redeem GET None))
           \<and> retries (fst (snd (send ?r ?w RedeemRoute_redeem GET None))) = 2"
    using r by (simp add: send_limited_then_rejected)
  then have b: "fst (snd (send ?r ?w RedeemRoute_redeem GET None)) \<noteq> ?r"
    using r(1) by auto
  have "raises (next_outcome ?v)" by (simp add: always_rejected_def)
  then have e: "send signing_request ?v RedeemRoute_redeem GET None =
      (Inl (raised (next_outcome ?v)), signed signing_request ?v,
       called signing_request ?v RedeemRoute_redeem GET)"
    by (simp add: send_raise_eval empty_cache_miss signing_request_fields)
  have "fst (generateDS ?v) = str ''0,aaaaaa,salt=6s25p5ox5y14umn1p61aqyyvbvvl3lrt&t=0&r=aaaaaa''"
    by (simp add: generateDS_example digits_of.simps) (simp add: str_def)
  then have d: "map_of (headers (signed signing_request ?v)) (str ''DS'') =
      Some (str ''0,aaaaaa,salt=6s25p5ox5y14umn1p61aqyyvbvvl3lrt&t=0&r=aaaaaa'')"
    by (simp add: signed_eq signing_request_fields map_of_obj_set)
  from a b d r(1) show ?thesis
    unfolding e by (simp add: signing_request_fields)
qed

text \<open>
  C10, amended. A send that ends in an error outcome, thrown or the object of the catch
  block, writes nothing to the cache and leaves the body, the query parameters and the
  signature flag as they were. The retry counter is not reset: it has grown by one for
  each -2016 retry made before the error. The headers are as they were when the signature
  flag is unset; when it is set, they are as they were but for the DS entry, which holds
  the signature generated at the start of the last attempt. So with the flag unset and no
  retry the Request is unchanged.
\<close>

theorem send_error_frame_conditions:
  assumes "send r w url method ttl = (res, r', w')"
    and "isl res \<or> (\<exists>v. res = Inr (FromCatch, v))"
  shows "cache r' = cache r \<and> body r' = body r \<and> params r' = params r \<and> ds r' = ds r
         \<and> calls w < calls w'
         \<and> retries r' = retries r + (calls w' - calls w - 1)
         \<and> (\<forall>k. k \<noteq> str ''DS'' \<longrightarrow> map_of (headers r') k = map_of (headers r) k)
         \<and> (\<not> ds r \<longrightarrow> headers r' = headers r)
         \<and> (ds r \<longrightarrow>
              headers r' =
                obj_set (headers r) (str ''DS'')
                  (fst (generateDS (snd (attempt r w url method (calls w' - calls w - 1))))))
         \<and> (\<not> ds r \<and> calls w' = calls w + 1 \<longrightarrow> r' = r)"
proof -
  note always = send_always [OF assms(1)]
  note frame = send_error_frame [OF assms]
  have c: "calls w < calls w'"
    using send_outcome [OF assms(1)] assms(2) by (cases res) auto
  with frame have n: "retries r' = retries r + (calls w' - calls w - 1)"
    by arith
  have "r' = r" if "\<not> ds r" and "calls w' = calls w + 1"
    using always frame n that by (intro request.equality) simp_all
  moreover have "headers r' =
      obj_set (headers r) (str ''DS'')
        (fst (generateDS (snd (attempt r w url method (calls w' - calls w - 1)))))" if "ds r"
    using assms that by (rule send_error_headers)
  ultimately show ?thesis using always frame c n by blast
qed

theorem send_error_frame_conditions_witness:
  "isl (fst (send signing_request (example_world limited_then_rejected)
               RedeemRoute_redeem GET None))
   \<and> ds signing_request
   \<and> calls (snd (snd (send signing_request (example_world limited_then_rejected)
                         RedeemRoute_redeem GET None))) = 2
   \<and> retries (fst (snd (send signing_request (example_world limited_then_rejected)
                           RedeemRoute_redeem GET None))) = 2
   \<and> headers (fst (snd (send signing_request (example_world limited_then_rejected)
                           RedeemRoute_redeem GET None))) =
       obj_set (headers signing_request) (str ''DS'')
         (str ''1,aaaaaa,salt=6s25p5ox5y14umn1p61aqyyvbvvl3lrt&t=1&r=aaaaaa'')
   \<and> isl (fst (send example_request (example_world always_rejected) RedeemRoute_redeem POST None))
   \<and> \<not> ds example_request
   \<and> calls (snd (snd (send example_request (example_world always_rejected)
                         RedeemRoute_redeem POST None))) = 1
   \<and> fst (snd (send example_request (example_world always_rejected)
                  RedeemRoute_redeem POST None)) = example_request"
proof -
  let ?w = "example_world always_rejected"
  let ?v = "example_world limited_then_rejected"
  let ?r1 = "(signed signing_request ?v)\<lparr>retries := retries signing_request + 1\<rparr>"
  let ?v1 = "delay 1 (called signing_request ?v RedeemRoute_redeem GET)"
  have "raises (next_outcome ?w)" by (simp add: always_rejected_def)
  then have e: "send example_request ?w RedeemRoute_redeem POST None =
      (Inl (raised (next_outcome ?w)), signed example_request ?w,
       called example_request ?w RedeemRoute_redeem POST)"
    by (simp add: send_raise_eval example_request_miss)
  have nds: "\<not> ds example_request"
    by (simp add: example_request_def setBody_def new_Request_def)
  have a: "signed example_request ?w = example_request"
    using send_error_frame_conditions [OF e] nds by simp
  have f: "send signing_request ?v RedeemRoute_redeem GET None =
      (Inl (raised (always_rejected 1)), signed ?r1 ?v1, called ?r1 ?v1 RedeemRoute_redeem GET)"
    by (simp add: send_limited_then_rejected signing_request_fields)
  have k: "calls (called ?r1 ?v1 RedeemRoute_redeem GET) - calls ?v - 1 = Suc 0"
    by simp
  have g: "fst (generateDS ?v1) = str ''1,aaaaaa,salt=6s25p5ox5y14umn1p61aqyyvbvvl3lrt&t=1&r=aaaaaa''"
    by (simp add: generateDS_example digits_of.simps) (simp add: str_def)
  have att: "snd (attempt signing_request ?v RedeemRoute_redeem GET (Suc 0)) = ?v1"
    by (simp only: attempt.simps snd_conv)
  have h: "isl (Inl (raised (always_rejected 1)) :: send_result)
           \<or> (\<exists>v. (Inl (raised (always_rejected 1)) :: send_result) = Inr (FromCatch, v))"
    by simp
  note t = send_error_frame_conditions [OF f h, unfolded k att g]
  from t have b: "retries (signed ?r1 ?v1) = 2
        \<and> headers (signed ?r1 ?v1) =
            obj_set (headers signing_request) (str ''DS'')
              (str ''1,aaaaaa,salt=6s25p5ox5y14umn1p61aqyyvbvvl3lrt&t=1&r=aaaaaa'')"
    by (simp add: signing_request_fields)
  from a b nds show ?thesis
    unfolding e f by (simp add: signing_request_fields)
qed


subsection \<open>When a send throws\<close>

text \<open>
  C4, as stated, fails: the transport resolves with the status 204, which is a 2xx status,
  and send throws the HoyolabError made from it.
\<close>

theorem send_throws_on_204:
  "next_outcome (example_world always_204) =
     Response 204 (Some (str ''No Content'')) (envelope 0)
   \<and> fst (send (new_Request None) (example_world always_204) RedeemRoute_redeem GET None) =
       Inl (HoyolabRequestError (Some (str ''204'')) (Str (str ''No Content'')))"
proof -
  let ?w = "example_world always_204"
  have o: "next_outcome ?w = Response 204 (Some (str ''No Content'')) (envelope 0)"
    by (simp add: always_204_def)
  then have "raises (next_outcome ?w)" by simp
  then have "send (new_Request None) ?w RedeemRoute_redeem GET None =
      (Inl (raised (next_outcome ?w)), signed (new_Request None) ?w,
       called (new_Request None) ?w RedeemRoute_redeem GET)"
    by (simp add: send_raise_eval new_Request_miss)
  moreover have "toString_int 204 = str ''204''"
    by (simp add: toString_int_def digits_of.simps str_def)
  ultimately show ?thesis by (simp add: always_204_def)
qed

text \<open>
  C4, amended. A send throws if and only if it makes a transport call and the last one it
  makes is rejected by the transport with an AxiosError, or is answered with a status
  other than 200 and 201 (with a status text, or else with a body that is neither null nor
  undefined); the HoyolabError carries the code and message of that call. Such a call is
  never retried: a send that misses the cache and whose transport call fails in this way
  throws after this one call, with the retry counter as it was, and every transport call
  that a send makes before its last one was answered with the status 200 or 201 and the
  return code -2016. A send returns from the catch block if and only if reading a property
  of the body of the last response raised a TypeError, the body being null or undefined;
  such a call is not retried either, and what send returns is then the envelope with
  return code -9999, empty message and null data.
\<close>

theorem send_throws_iff:
  assumes "send r w url method ttl = (res, r', w')"
  shows "(isl res \<longleftrightarrow> calls w < calls w' \<and> raises (snd (network w (calls w' - 1))))
         \<and> (\<forall>e. res = Inl e \<longrightarrow> e = raised (snd (network w (calls w' - 1))))
         \<and> (\<not> cache_hit r w url method \<and> raises (next_outcome w) \<longrightarrow>
              res = Inl (raised (next_outcome w)) \<and> calls w' = calls w + 1
              \<and> retries r' = retries r)
         \<and> (\<forall>i. calls w \<le> i \<and> i + 1 < calls w' \<longrightarrow>
              rate_limited (snd (network w i)) \<and> \<not> raises (snd (network w i))
              \<and> \<not> swallowed (snd (network w i)))
         \<and> ((\<exists>v. res = Inr (FromCatch, v)) \<longleftrightarrow>
              calls w < calls w' \<and> \<not> raises (snd (network w (calls w' - 1)))
              \<and> swallowed (snd (network w (calls w' - 1))))
         \<and> (\<forall>v. res = Inr (FromCatch, v) \<longrightarrow> v = sentinel)
         \<and> (\<not> cache_hit r w url method \<and> \<not> raises (next_outcome w)
              \<and> swallowed (next_outcome w) \<longrightarrow>
              res = Inr (FromCatch, sentinel) \<and> calls w' = calls w + 1
              \<and> retries r' = retries r)"
proof -
  note outcome = send_outcome [OF assms]
  have last: "(isl res \<longleftrightarrow> calls w < calls w' \<and> raises (snd (network w (calls w' - 1))))
         \<and> (\<forall>e. res = Inl e \<longrightarrow> e = raised (snd (network w (calls w' - 1))))
         \<and> ((\<exists>v. res = Inr (FromCatch, v)) \<longleftrightarrow>
              calls w < calls w' \<and> \<not> raises (snd (network w (calls w' - 1)))
              \<and> swallowed (snd (network w (calls w' - 1))))
         \<and> (\<forall>v. res = Inr (FromCatch, v) \<longrightarrow> v = sentinel)"
  proof (cases res)
    case (Inl e)
    with outcome show ?thesis by simp
  next
    case (Inr p)
    obtain site v where p: "p = (site, v)" by (cases p)
    show ?thesis
    proof (cases site)
      case FromCache
      with Inr p outcome show ?thesis by simp
    next
      case FromNetwork
      with Inr p outcome show ?thesis by simp
    next
      case FromCatch
      with Inr p outcome show ?thesis by simp
    qed
  qed
  note l1 = last [THEN conjunct1]
  note l2 = last [THEN conjunct2, THEN conjunct1]
  note l3 = last [THEN conjunct2, THEN conjunct2, THEN conjunct1]
  note l4 = last [THEN conjunct2, THEN conjunct2, THEN conjunct2]
  have thrown: "\<not> cache_hit r w url method \<and> raises (next_outcome w) \<longrightarrow>
                  res = Inl (raised (next_outcome w)) \<and> calls w' = calls w + 1
                  \<and> retries r' = retries r"
  proof
    assume "\<not> cache_hit r w url method \<and> raises (next_outcome w)"
    then have "send r w url method ttl =
                 (Inl (raised (next_outcome w)), signed r w, called r w url method)"
      by (simp add: send_raise_eval)
    with assms have "res = Inl (raised (next_outcome w))" and "r' = signed r w"
      and "w' = called r w url method"
      by simp_all
    then show "res = Inl (raised (next_outcome w)) \<and> calls w' = calls w + 1
               \<and> retries r' = retries r"
      by simp
  qed
  have caught: "\<not> cache_hit r w url method \<and> \<not> raises (next_outcome w)
                  \<and> swallowed (next_outcome w) \<longrightarrow>
                  res = Inr (FromCatch, sentinel) \<and> calls w' = calls w + 1
                  \<and> retries r' = retries r"
  proof
    assume "\<not> cache_hit r w url method \<and> \<not> raises (next_outcome w)
            \<and> swallowed (next_outcome w)"
    then have "send r w url method ttl =
                 (Inr (FromCatch, sentinel), signed r w, called r w url method)"
      by (simp add: send_swallow_eval)
    with assms have "res = Inr (FromCatch, sentinel)" and "r' = signed r w"
      and "w' = called r w url method"
      by simp_all
    then show "res = Inr (FromCatch, sentinel) \<and> calls w' = calls w + 1
               \<and> retries r' = retries r"
      by simp
  qed
  have before: "\<forall>i. calls w \<le> i \<and> i + 1 < calls w' \<longrightarrow>
                  rate_limited (snd (network w i)) \<and> \<not> raises (snd (network w i))
                  \<and> \<not> swallowed (snd (network w i))"
  proof (intro allI impI)
    fix i
    assume "calls w \<le> i \<and> i + 1 < calls w'"
    then have "calls w \<le> i \<and> Suc i < calls w'" by simp
    with send_retried_calls [OF assms, rule_format, of i]
    have l: "rate_limited (snd (network w i))" .
    from rate_limited_not_raises [OF l] l
    show "rate_limited (snd (network w i)) \<and> \<not> raises (snd (network w i))
          \<and> \<not> swallowed (snd (network w i))"
      by (intro conjI) (rule l, erule conjunct1, erule conjunct2)
  qed
  show ?thesis
    by (intro conjI) (rule l1, rule l2, rule thrown, rule before, rule l3, rule l4, rule caught)
qed

theorem send_throws_iff_witness:
  "fst (send (new_Request None) (example_world always_rejected) RedeemRoute_redeem GET None) =
     Inl (HoyolabRequestError (Some (str ''ECONNREFUSED'')) (Str (str ''connect ECONNREFUSED'')))
   \<and> calls (snd (snd (send (new_Request None) (example_world always_rejected)
                         RedeemRoute_redeem GET None))) = 1
   \<and> fst (send (new_Request None) (example_world always_null) RedeemRoute_redeem GET None) =
       Inr (FromCatch, Obj [(str ''retcode'', Num (- 9999)), (str ''message'', Str []),
                            (str ''data'', Null)])
   \<and> calls (snd (snd (send (new_Request None) (example_world always_null)
                         RedeemRoute_redeem GET None))) = 1
   \<and> fst (send (new_Request None) (example_world limited_then_rejected)
            RedeemRoute_redeem GET None) =
       Inl (HoyolabRequestError (Some (str ''ECONNREFUSED'')) (Str (str ''connect ECONNREFUSED'')))
   \<and> calls (snd (snd (send (new_Request None) (example_world limited_then_rejected)
                         RedeemRoute_redeem GET None))) = 2
   \<and> rate_limited (snd (network (example_world limited_then_rejected) 0))"
proof -
  let ?r = "new_Request None"
  let ?w = "example_world always_rejected"
  let ?v = "example_world always_null"
  let ?u = "example_world limited_then_rejected"
  obtain res1 r1 w1 where e: "send ?r ?w RedeemRoute_redeem GET None = (res1, r1, w1)"
    by (cases "send ?r ?w RedeemRoute_redeem GET None")
  obtain res2 r2 w2 where f: "send ?r ?v RedeemRoute_redeem GET None = (res2, r2, w2)"
    by (cases "send ?r ?v RedeemRoute_redeem GET None")
  have x: "raises (next_outcome ?w)"
    "raised (next_outcome ?w) =
       HoyolabRequestError (Some (str ''ECONNREFUSED'')) (Str (str ''connect ECONNREFUSED''))"
    by (simp_all add: always_rejected_def)
  have y: "\<not> raises (next_outcome ?v)" "swallowed (next_outcome ?v)"
    by (simp_all add: always_null_def)
  from send_throws_iff [OF e, THEN conjunct2, THEN conjunct2, THEN conjunct1] x
  have a: "res1 = Inl (HoyolabRequestError (Some (str ''ECONNREFUSED''))
                         (Str (str ''connect ECONNREFUSED''))) \<and> calls w1 = 1"
    by (simp add: new_Request_miss)
  from send_throws_iff [OF f, THEN conjunct2, THEN conjunct2, THEN conjunct2, THEN conjunct2,
      THEN conjunct2, THEN conjunct2] y
  have b: "res2 = Inr (FromCatch, sentinel) \<and> calls w2 = 1"
    by (simp add: new_Request_miss)
  have g: "send ?r ?u RedeemRoute_redeem GET None =
      (Inl (raised (always_rejected 1)),
       signed ((signed ?r ?u)\<lparr>retries := retries ?r + 1\<rparr>)
         (delay 1 (called ?r ?u RedeemRoute_redeem GET)),
       called ((signed ?r ?u)\<lparr>retries := retries ?r + 1\<rparr>)
         (delay 1 (called ?r ?u RedeemRoute_redeem GET)) RedeemRoute_redeem GET)"
    by (rule send_limited_then_rejected) (simp_all add: new_Request_def new_Cache_def)
  from send_throws_iff [OF g, THEN conjunct2, THEN conjunct2, THEN conjunct2, THEN conjunct1,
      rule_format, of 0]
  have c: "rate_limited (snd (network ?u 0))"
    by simp
  have d: "raised (always_rejected 1) =
       HoyolabRequestError (Some (str ''ECONNREFUSED'')) (Str (str ''connect ECONNREFUSED''))"
    by (simp add: always_rejected_def)
  have h: "calls (called ((signed ?r ?u)\<lparr>retries := retries ?r + 1\<rparr>)
             (delay 1 (called ?r ?u RedeemRoute_redeem GET)) RedeemRoute_redeem GET) = 2"
    by simp
  from a b c d h show ?thesis
    unfolding e f g fst_conv snd_conv by (simp add: sentinel_def)
qed

subsection \<open>The transport calls of a send\<close>

lemma send_requests:
  assumes "send r w url method ttl = (res, r', w')"
  shows "\<exists>new. requests w' = requests w @ new
           \<and> (\<forall>x\<in>set new. fst x = url \<and> config_method (snd x) = method
                              \<and> config_params (snd x) = params r)"
  using assms
proof (induction rule: send_induct)
  case (Done r w ttl)
  then show ?case
    by (cases rule: send_body_DoneE) (simp_all add: config_of_def)
next
  case (Retry r w ttl r1 w1)
  from Retry(1) show ?case
  proof (rule send_body_RetryE)
    assume r1: "r1 = (signed r w)\<lparr>retries := retries r + 1\<rparr>"
      and w1: "w1 = delay 1 (called r w url method)"
    from Retry(3) obtain new where
      n: "requests w' = requests w1 @ new"
        "\<forall>x\<in>set new. fst x = url \<and> config_method (snd x) = method
                        \<and> config_params (snd x) = params r1"
      by blast
    have "requests w' = requests w @ ((url, config_of (signed r w) method) # new)"
      using n(1) by (simp add: w1)
    moreover have "\<forall>x\<in>set ((url, config_of (signed r w) method) # new).
        fst x = url \<and> config_method (snd x) = method \<and> config_params (snd x) = params r"
      using n(2) by (simp add: r1 config_of_def)
    ultimately show ?thesis by blast
  qed
qed

lemma obj_get_obj_set: "obj_get (obj_set kvs k v) k' = (if k' = k then v else obj_get kvs k')"
  by (simp add: obj_get_def map_of_obj_set)

subsection \<open>Redeeming a code\<close>

lemma claim_params:
  assumes "module_region m = Some region" and "region \<noteq> []"
    and "module_uid m = Some uid" and "uid \<noteq> 0"
  shows "claim m w code =
           (let r = setParams (module_request m)
                  [(str ''uid'', Num uid), (str ''region'', Str region),
                   (str ''game_biz'', Str (module_game m)),
                   (str ''cdkey'', Str (replace_FFFD code)),
                   (str ''lang'', Str (module_lang m)),
                   (str ''sLangKey'', Str (module_lang m))];
                s = send r w RedeemRoute_redeem GET None
            in (fst s, m\<lparr>module_request := fst (snd s)\<rparr>, snd (snd s)))"
  using assms by (simp add: claim_def Let_def case_prod_unfold)

lemma cdkey_set:
  "obj_get (params (setParams r
      [(str ''uid'', u), (str ''region'', g), (str ''game_biz'', b), (str ''cdkey'', c),
       (str ''lang'', l), (str ''sLangKey'', l)])) (str ''cdkey'') = c"
  by (simp add: setParams_def obj_spread_def obj_get_obj_set str_def)

text \<open>
  C9. When the region and the UID of the module are set, claim sets the query parameter
  cdkey to the code with every U+FFFD removed and the other code units kept in order, and
  every transport call that the claim makes goes to the redeem route with that parameter.
  The code "ABC", U+FFFD, "123" becomes "ABC123".
\<close>

theorem claim_strips_replacement_character:
  assumes "module_region m = Some region" and "region \<noteq> []"
    and "module_uid m = Some uid" and "uid \<noteq> 0"
  shows "obj_get (params (module_request (fst (snd (claim m w code))))) (str ''cdkey'') =
           Str (filter (\<lambda>c. c \<noteq> 65533) code)
         \<and> (\<forall>x\<in>set (drop (calls w) (requests (snd (snd (claim m w code))))).
               fst x = RedeemRoute_redeem
               \<and> obj_get (config_params (snd x)) (str ''cdkey'') =
                   Str (filter (\<lambda>c. c \<noteq> 65533) code))
         \<and> replace_FFFD (str ''ABC'' @ 65533 # str ''123'') = str ''ABC123''"
proof -
  let ?r = "setParams (module_request m)
                  [(str ''uid'', Num uid), (str ''region'', Str region),
                   (str ''game_biz'', Str (module_game m)),
                   (str ''cdkey'', Str (replace_FFFD code)),
                   (str ''lang'', Str (module_lang m)),
                   (str ''sLangKey'', Str (module_lang m))]"
  obtain res r' w' where s: "send ?r w RedeemRoute_redeem GET None = (res, r', w')"
    by (cases "send ?r w RedeemRoute_redeem GET None")
  have c: "claim m w code = (res, m\<lparr>module_request := r'\<rparr>, w')"
    using claim_params [OF assms, of w code] s by (simp add: Let_def)
  have p: "obj_get (params ?r) (str ''cdkey'') = Str (filter (\<lambda>c. c \<noteq> 65533) code)"
    by (simp add: cdkey_set replace_FFFD_def)
  have "params r' = params ?r"
    using send_always [OF s] by simp
  with p have a: "obj_get (params r') (str ''cdkey'') = Str (filter (\<lambda>c. c \<noteq> 65533) code)"
    by simp
  from send_requests [OF s] obtain new where
    n: "requests w' = requests w @ new"
      "\<forall>x\<in>set new. fst x = RedeemRoute_redeem \<and> config_method (snd x) = GET
                      \<and> config_params (snd x) = params ?r"
    by blast
  have "drop (calls w) (requests w') = new"
    using n(1) by (simp add: calls_def)
  with n(2) p have b: "\<forall>x\<in>set (drop (calls w) (requests w')).
      fst x = RedeemRoute_redeem
      \<and> obj_get (config_params (snd x)) (str ''cdkey'') = Str (filter (\<lambda>c. c \<noteq> 65533) code)"
    by simp
  have e: "replace_FFFD (str ''ABC'' @ 65533 # str ''123'') = str ''ABC123''"
    by (simp add: replace_FFFD_def str_def)
  from a b e show ?thesis by (simp add: c)
qed

theorem claim_strips_replacement_character_witness:
  "module_region example_module = Some (str ''os_asia'') \<and> str ''os_asia'' \<noteq> []
   \<and> module_uid example_module = Some 801234567
   \<and> map (\<lambda>x. obj_get (config_params (snd x)) (str ''cdkey''))
        (requests (snd (snd (claim example_module (example_world always_ok)
                               (str ''ABC'' @ 65533 # str ''123''))))) =
      [Str (str ''ABC123'')]"
proof -
  let ?code = "str ''ABC'' @ 65533 # str ''123''"
  let ?w = "example_world always_ok"
  let ?r = "setParams (new_Request None)
                  [(str ''uid'', Num 801234567), (str ''region'', Str (str ''os_asia'')),
                   (str ''game_biz'', Str (str ''hk4e_global'')),
                   (str ''cdkey'', Str (replace_FFFD ?code)),
                   (str ''lang'', Str (str ''en-us'')),
                   (str ''sLangKey'', Str (str ''en-us''))]"
  have h: "module_region example_module = Some (str ''os_asia'')" "str ''os_asia'' \<noteq> []"
    "module_uid example_module = Some 801234567" "(801234567::int) \<noteq> 0"
    by (simp_all add: example_module_def str_def)
  have m: "\<not> cache_hit ?r ?w RedeemRoute_redeem GET"
    by (simp add: cache_hit_def Cache_get_def NodeCache_get_def setParams_def
          new_Request_def new_Cache_def)
  have s: "send ?r ?w RedeemRoute_redeem GET None =
      (Inr (FromNetwork, response_data (next_outcome ?w)),
       (signed ?r ?w)\<lparr>cache := Cache_set (called ?r ?w RedeemRoute_redeem GET) (cache ?r)
                                  (cacheKey_of ?r RedeemRoute_redeem GET)
                                  (response_data (next_outcome ?w)) None,
                        retries := 1, body := []\<rparr>,
       called ?r ?w RedeemRoute_redeem GET)"
    using m by (intro send_fresh_eval) (simp_all add: always_ok_def)
  have c: "requests (snd (snd (claim example_module ?w ?code))) =
             [(RedeemRoute_redeem, config_of (signed ?r ?w) GET)]"
    using claim_params [OF h, of ?w ?code] s
    by (simp add: Let_def example_module_def example_world_def)
  from claim_strips_replacement_character [OF h, of ?w ?code]
  have "\<forall>x\<in>set (drop (calls ?w) (requests (snd (snd (claim example_module ?w ?code))))).
          obj_get (config_params (snd x)) (str ''cdkey'') = Str (str ''ABC123'')"
    by (simp add: replace_FFFD_def str_def)
  then have "obj_get (config_params (config_of (signed ?r ?w) GET)) (str ''cdkey'') =
               Str (str ''ABC123'')"
    by (simp add: c)
  with h show ?thesis by (simp add: c)
qed


subsection \<open>Two sends of the same request\<close>

lemma elapse_fields [simp]:
  "now (elapse ms w) = now w + ms"
  "requests (elapse ms w) = requests w"
  "network (elapse ms w) = network w"
  "md5 (elapse ms w) = md5 w"
  "stringify (elapse ms w) = stringify w"
  "calls (elapse ms w) = calls w"
  by (simp_all add: elapse_def calls_def)

lemma send_miss_calls:
  assumes "send r w url method ttl = (res, r', w')" and "\<not> cache_hit r w url method"
  shows "calls w < calls w'"
proof (cases res)
  case (Inl e)
  then show ?thesis using send_outcome [OF assms(1)] by simp
next
  case (Inr p)
  obtain site v where p: "p = (site, v)" by (cases p)
  show ?thesis
    using send_outcome [OF assms(1)] assms(2) Inr p by (cases site) simp_all
qed

lemma fresh_then_cached:
  assumes "send r w url method ttl = (Inr (FromNetwork, v), r1, w1)"
    and "calls w1 = calls w + 1"
    and "truthy v"
    and "body r2 = body r" and "params r2 = params r" and "cache r2 = cache r1"
    and "md5 w2 = md5 w1" and "stringify w2 = stringify w1"
    and "now w2 \<le> now w1 + (case ttl of None \<Rightarrow> stdTTL (cache r) | Some t \<Rightarrow> t) * 1000"
  shows "send r2 w2 url method ttl2 = (Inr (FromCache, v), r2, w2)"
proof -
  have c: "cache r1 = Cache_set w1 (cache r) (cacheKey_of r url method) v ttl"
    using send_fresh [OF assms(1) refl] assms(2) by simp
  have k: "cacheKey_of r2 url method = cacheKey_of r url method"
    using assms(4,5) by (simp add: cacheKey_of_def)
  have g: "Cache_get w2 (cache r2) (cacheKey_of r2 url method) = v"
    using assms(7,8,9)
    by (simp add: k assms(6) c Cache_get_def Cache_set_def NodeCache_get_def NodeCache_set_def
          generateKey_def Let_def)
  with assms(3) have "cache_hit r2 w2 url method" by (simp add: cache_hit_def)
  then show ?thesis using g by (simp add: send_hit_eval)
qed

lemma fresh_then_expired:
  assumes "send r w url method ttl = (Inr (FromNetwork, v), r1, w1)"
    and "calls w1 = calls w + 1"
    and "body r2 = body r" and "params r2 = params r" and "cache r2 = cache r1"
    and "md5 w2 = md5 w1" and "stringify w2 = stringify w1"
    and "now w1 + (case ttl of None \<Rightarrow> stdTTL (cache r) | Some t \<Rightarrow> t) * 1000 < now w2"
  shows "calls w2 < calls (snd (snd (send r2 w2 url method ttl2)))"
proof -
  have c: "cache r1 = Cache_set w1 (cache r) (cacheKey_of r url method) v ttl"
    using send_fresh [OF assms(1) refl] assms(2) by simp
  have k: "cacheKey_of r2 url method = cacheKey_of r url method"
    using assms(3,4) by (simp add: cacheKey_of_def)
  have "Cache_get w2 (cache r2) (cacheKey_of r2 url method) = Undefined"
    using assms(6,7,8)
    by (simp add: k assms(5) c Cache_get_def Cache_set_def NodeCache_get_def NodeCache_set_def
          generateKey_def Let_def)
  then have m: "\<not> cache_hit r2 w2 url method" by (simp add: cache_hit_def)
  obtain res r' w' where s: "send r2 w2 url method ttl2 = (res, r', w')"
    by (cases "send r2 w2 url method ttl2")
  from send_miss_calls [OF s m] show ?thesis by (simp add: s)
qed

text \<open>
  C2 at a failing input. The first send is given a ttl of 300 seconds; its first response
  has the return code -2016, the second one succeeds and is returned. A second send with
  the same url, method, parameters and body, 100 seconds later, makes a third transport
  call: the retry passed no ttl, so the response was stored for the default 30 seconds.
\<close>

theorem retried_send_forgets_ttl:
  "fst retried_send = Inr (FromNetwork, envelope 0)
   \<and> calls (snd (snd retried_send)) = 2
   \<and> body (fst (snd retried_send)) = body (new_Request None)
   \<and> params (fst (snd retried_send)) = params (new_Request None)
   \<and> now (elapse 100000 (snd (snd retried_send))) = now (snd (snd retried_send)) + 100000
   \<and> fst (send (fst (snd retried_send)) (elapse 100000 (snd (snd retried_send)))
            RedeemRoute_redeem GET (Some 300)) = Inr (FromNetwork, envelope 0)
   \<and> calls (snd (snd (send (fst (snd retried_send)) (elapse 100000 (snd (snd retried_send)))
                         RedeemRoute_redeem GET (Some 300)))) = 3"
proof -
  let ?u = RedeemRoute_redeem
  let ?r0 = "new_Request None"
  let ?w0 = "example_world limited_once"
  let ?r1 = "(signed ?r0 ?w0)\<lparr>retries := retries ?r0 + 1\<rparr>"
  let ?w1 = "delay 1 (called ?r0 ?w0 ?u GET)"
  let ?w2 = "called ?r1 ?w1 ?u GET"
  let ?r2 = "(signed ?r1 ?w1)\<lparr>cache := Cache_set ?w2 (cache ?r1) (cacheKey_of ?r1 ?u GET)
                                          (envelope 0) None,
                              retries := 1, body := []\<rparr>"
  let ?w3 = "elapse 100000 ?w2"
  have r0: "retries ?r0 = 1" "body ?r0 = []" "params ?r0 = []" "cache ?r0 = new_Cache"
    by (simp_all add: new_Request_def)
  have "rate_limited (next_outcome ?w0)"
    by (simp add: limited_once_def always_2016_def)
  then have a: "send ?r0 ?w0 ?u GET (Some 300) = send ?r1 ?w1 ?u GET None"
    using send_retry_eval [of ?r0 ?w0 ?u GET "Some 300"] by (simp add: new_Request_miss r0)
  have m1: "\<not> cache_hit ?r1 ?w1 ?u GET"
    by (rule cache_miss_retry) (rule new_Request_miss)
  have o1: "next_outcome ?w1 = always_ok 1"
    by (simp add: next_outcome_def limited_once_def)
  have n1: "\<not> raises (next_outcome ?w1)" "\<not> swallowed (next_outcome ?w1)"
    "\<not> rate_limited (next_outcome ?w1)"
    unfolding o1 by (simp_all add: always_ok_def)
  have d1: "response_data (next_outcome ?w1) = envelope 0"
    unfolding o1 by (simp add: always_ok_def)
  have b: "send ?r1 ?w1 ?u GET None = (Inr (FromNetwork, envelope 0), ?r2, ?w2)"
    by (rule send_fresh_eval [OF m1 n1, of None, unfolded d1])
  have first: "retried_send = (Inr (FromNetwork, envelope 0), ?r2, ?w2)"
    by (simp only: retried_send_def a b)
  have t: "now ?w2 = 1000" by simp
  have "Cache_get ?w3 (cache ?r2) (cacheKey_of ?r2 ?u GET) = Undefined"
    by (simp add: Cache_get_def Cache_set_def NodeCache_get_def NodeCache_set_def
          generateKey_def Let_def cacheKey_of_def r0 new_Cache_def)
  then have m2: "\<not> cache_hit ?r2 ?w3 ?u GET" by (simp add: cache_hit_def)
  have o2: "next_outcome ?w3 = always_ok 2"
    by (simp add: next_outcome_def limited_once_def always_ok_def)
  have n2: "\<not> raises (next_outcome ?w3)" "\<not> swallowed (next_outcome ?w3)"
    "\<not> rate_limited (next_outcome ?w3)"
    unfolding o2 by (simp_all add: always_ok_def)
  have d2: "response_data (next_outcome ?w3) = envelope 0"
    unfolding o2 by (simp add: always_ok_def)
  have c: "send ?r2 ?w3 ?u GET (Some 300) =
      (Inr (FromNetwork, envelope 0),
       (signed ?r2 ?w3)\<lparr>cache := Cache_set (called ?r2 ?w3 ?u GET) (cache ?r2)
                                     (cacheKey_of ?r2 ?u GET) (envelope 0) (Some 300),
                         retries := 1, body := []\<rparr>,
       called ?r2 ?w3 ?u GET)"
    by (rule send_fresh_eval [OF m2 n2, of "Some 300", unfolded d2])
  have n: "calls ?w3 = 2" by simp
  show ?thesis
    unfolding first fst_conv snd_conv c by (simp add: n r0)
qed

section \<open>Properties of cookies\<close>

subsection \<open>Splitting and joining\<close>

lemma split_on_not_Nil: "split_on sep s \<noteq> []"
  by (induction s) (auto split: list.splits)

lemma split_on_no_sep: "sep \<notin> set s \<Longrightarrow> split_on sep s = [s]"
  by (induction s) auto

lemma split_on_append:
  "sep \<notin> set a \<Longrightarrow> split_on sep (a @ sep # b) = a # split_on sep b"
  by (induction a) (auto simp: split_on_not_Nil split: list.splits)

lemma split_on_pieces: "x \<in> set (split_on sep s) \<Longrightarrow> set x \<subseteq> set s"
proof (induction s arbitrary: x)
  case Nil
  then show ?case by simp
next
  case (Cons c cs)
  show ?case
  proof (cases "c = sep")
    case True
    with Cons show ?thesis by auto
  next
    case False
    obtain y ys where y: "split_on sep cs = y # ys"
      using split_on_not_Nil [of sep cs] by (cases "split_on sep cs") auto
    with Cons.prems False have "x = c # y \<or> x \<in> set ys" by simp
    then show ?thesis
    proof
      assume "x = c # y"
      moreover have "set y \<subseteq> set cs" using Cons.IH [of y] y by simp
      ultimately show ?thesis by auto
    next
      assume "x \<in> set ys"
      then have "set x \<subseteq> set cs" using Cons.IH [of x] y by simp
      then show ?thesis by auto
    qed
  qed
qed

lemma split_on_join:
  assumes "segs \<noteq> []" and "\<forall>seg\<in>set segs. 59 \<notin> set seg"
  shows "split_on 59 (join [59, 32] segs) = hd segs # map ((#) 32) (tl segs)"
  using assms
proof (induction segs)
  case Nil
  then show ?case by simp
next
  case (Cons x segs)
  show ?case
  proof (cases segs)
    case Nil
    with Cons.prems show ?thesis by (simp add: split_on_no_sep)
  next
    case (Cons y ys)
    with Cons.IH Cons.prems
    have ih: "split_on 59 (join [59, 32] (y # ys)) = y # map ((#) 32) ys"
      by simp
    have j: "join [59, 32] (x # y # ys) = x @ 59 # (32 # join [59, 32] (y # ys))"
      by simp
    have "59 \<notin> set x" using Cons.prems by simp
    then have "split_on 59 (join [59, 32] (x # y # ys)) =
        x # split_on 59 (32 # join [59, 32] (y # ys))"
      unfolding j by (rule split_on_append)
    with ih Cons show ?thesis by simp
  qed
qed

subsection \<open>Trimming\<close>

lemma trim_lstrip: "trim s = rstrip (dropWhile is_white_space s)"
  by (simp add: trim_def rstrip_def)

lemma rstrip_keep: "\<not> is_white_space c \<Longrightarrow> rstrip (a @ c # b) = a @ c # rstrip b"
proof (induction b rule: rev_induct)
  case Nil
  then show ?case by (simp add: rstrip_def)
next
  case (snoc x xs)
  then show ?case by (simp add: rstrip_def)
qed

lemma rstrip_subset: "set (rstrip s) \<subseteq> set s"
  using set_dropWhileD [of _ is_white_space "rev s"] by (auto simp: rstrip_def)

lemma trim_subset: "set (trim s) \<subseteq> set s"
  using rstrip_subset [of "dropWhile is_white_space s"] set_dropWhileD [of _ is_white_space s]
  by (auto simp: trim_lstrip)

lemma white_space_32: "is_white_space 32"
  by (simp add: is_white_space_def)

lemma trim_pad: "trim (32 # s) = trim s"
  by (simp add: trim_def white_space_32)

lemma rstrip_id: "s \<noteq> [] \<Longrightarrow> \<not> is_white_space (last s) \<Longrightarrow> rstrip s = s"
  by (cases s rule: rev_cases) (simp_all add: rstrip_def)

lemma trim_key_value:
  assumes "\<not> is_white_space k" and "61 \<notin> set ks"
  shows "trim (k # ks @ 61 # v) = k # ks @ 61 # rstrip v"
proof -
  have "\<not> is_white_space 61" by (simp add: is_white_space_def)
  then have "rstrip ((k # ks) @ 61 # v) = (k # ks) @ 61 # rstrip v"
    by (rule rstrip_keep)
  with assms(1) show ?thesis by (simp add: trim_lstrip)
qed

lemma split_key_value:
  assumes "\<not> is_white_space k" and "61 \<notin> set (k # ks)"
  shows "split_on 61 (trim (k # ks @ 61 # v)) = (k # ks) # split_on 61 (rstrip v)"
proof -
  have t: "trim (k # ks @ 61 # v) = (k # ks) @ 61 # rstrip v"
    using trim_key_value [of k ks v] assms by simp
  show ?thesis unfolding t using assms(2) by (rule split_on_append)
qed

subsection \<open>Decoding\<close>

lemma uri_tokens_plain: "37 \<notin> set s \<Longrightarrow> uri_tokens s = map Lit s"
  by (induction s rule: uri_tokens.induct) auto

lemma decode_tokens_Lit: "decode_tokens None (map Lit s) = Inr s"
  by (induction s) (simp_all add: prepend_def)

lemma decodeURIComponent_plain: "37 \<notin> set s \<Longrightarrow> decodeURIComponent s = Inr s"
  by (simp add: decodeURIComponent_def uri_tokens_plain decode_tokens_Lit)

lemma decode_tokens_error: "decode_tokens p ts = Inl e \<Longrightarrow> e = URIError"
  by (induction p ts rule: decode_tokens.induct)
     (auto simp: prepend_def split: if_splits sum.splits option.splits)

lemma decodeURIComponent_error: "decodeURIComponent s = Inl e \<Longrightarrow> e = URIError"
  unfolding decodeURIComponent_def by (rule decode_tokens_error)

subsection \<open>Numbers and their digits\<close>

lemma digits_value_snoc: "digits_value (xs @ [c]) = digits_value xs * 10 + (int c - 48)"
  by (simp add: digits_value_def)

lemma digits_value_digits_of: "digits_value (digits_of n) = int n"
proof (induction n rule: digits_of.induct)
  case (1 n)
  show ?case
  proof (cases "n < 10")
    case True
    then show ?thesis
      by (subst digits_of.simps) (simp add: digits_value_def)
  next
    case False
    with 1 have "digits_value (digits_of (n div 10)) = int (n div 10)" by simp
    moreover have "int (n div 10) * 10 + int (n mod 10) = int n"
      by presburger
    ultimately show ?thesis
      using False by (subst digits_of.simps) (simp add: digits_value_snoc)
  qed
qed

lemma takeWhile_digits_of: "takeWhile is_digit (digits_of n) = digits_of n"
  using digits_of_all_digits [of _ n] by (simp add: takeWhile_eq_all_conv)

lemma parseInt_toString_int: "parseInt (toString_int n) = Num n"
proof -
  obtain c cs where cs: "digits_of (nat \<bar>n\<bar>) = c # cs"
    using digits_of_not_Nil [of "nat \<bar>n\<bar>"] by (cases "digits_of (nat \<bar>n\<bar>)") auto
  have d: "is_digit c" using digits_of_all_digits [of c "nat \<bar>n\<bar>"] cs by simp
  then have nw: "\<not> is_white_space c" by (rule is_digit_not_white_space)
  have sign: "c \<noteq> 45" "c \<noteq> 43" using d by (auto simp: is_digit_def)
  have tw: "takeWhile is_digit (c # cs) = c # cs"
    using takeWhile_digits_of [of "nat \<bar>n\<bar>"] cs by simp
  have v: "digits_value (c # cs) = \<bar>n\<bar>"
    using digits_value_digits_of [of "nat \<bar>n\<bar>"] cs by simp
  show ?thesis
  proof (cases "n < 0")
    case True
    then have "toString_int n = 45 # c # cs"
      using cs by (simp add: toString_int_def abs_if)
    moreover have "\<not> is_white_space 45" by (simp add: is_white_space_def)
    ultimately show ?thesis
      using tw v True by (simp add: parseInt_def trimStart_def Let_def)
  next
    case False
    then have "toString_int n = c # cs"
      using cs by (simp add: toString_int_def abs_if)
    then show ?thesis
      using tw v False nw sign by (simp add: parseInt_def trimStart_def Let_def)
  qed
qed

lemma toString_int_chars: "u \<in> set (toString_int n) \<Longrightarrow> u = 45 \<or> is_digit u"
  using digits_of_all_digits by (auto simp: toString_int_def split: if_splits)

lemma toString_int_not_Nil: "toString_int n \<noteq> []"
  by (simp add: toString_int_def digits_of_not_Nil)

lemma toString_int_last: "\<not> is_white_space (last (toString_int n))"
proof -
  have "last (toString_int n) \<in> set (toString_int n)"
    using toString_int_not_Nil by simp
  then have "last (toString_int n) = 45 \<or> is_digit (last (toString_int n))"
    by (rule toString_int_chars)
  then show ?thesis
    by (auto simp: is_white_space_def is_digit_def)
qed

subsection \<open>The names of the keys\<close>

lemma toCamelCase_keys:
  "toCamelCase (str ''ltoken'') = str ''ltoken''"
  "toCamelCase (str ''ltuid'') = str ''ltuid''"
  "toCamelCase (str ''account_id'') = str ''accountId''"
  "toCamelCase (str ''cookie_token'') = str ''cookieToken''"
  "toCamelCase (str ''mi18nLang'') = str ''mi18nLang''"
  by (simp_all add: toCamelCase_def capitalize_def toUpperCase_unit_def str_def)

lemma toSnakeCase_keys:
  "toSnakeCase (str ''cookieToken'') = str ''cookie_token''"
  "toSnakeCase (str ''accountId'') = str ''account_id''"
  by (simp_all add: toSnakeCase_def toLowerCase_unit_def str_def)

subsection \<open>Objects\<close>

lemma obj_get_Nil [simp]: "obj_get [] k = Undefined"
  by (simp add: obj_get_def)

subsection \<open>One segment of a cookie string\<close>

lemma parse_segment_eq:
  "parse_segment segment cookies =
     (if segment_key segment \<notin> set cookie_keys then Inr cookies
      else (case decodeURIComponent (segment_value segment) of
              Inl e \<Rightarrow> Inl e
            | Inr decoded \<Rightarrow>
                Inr (obj_set cookies (toCamelCase (segment_key segment))
                       (field_value (segment_key segment) decoded))))"
  by (simp add: parse_segment_def segment_key_def segment_value_def field_value_def Let_def
        obj_set_twice obj_get_obj_set split: sum.splits)

lemma parse_segment_error: "parse_segment segment cookies = Inl e \<Longrightarrow> e = URIError"
  by (auto simp: parse_segment_eq dest: decodeURIComponent_error split: if_splits sum.splits)

lemma parse_segments_error: "parse_segments segments cookies = Inl e \<Longrightarrow> e = URIError"
  by (induction segments arbitrary: cookies)
     (auto dest: parse_segment_error split: sum.splits)

lemma segment_value_subset: "set (segment_value segment) \<subseteq> set segment \<union> set (str ''undefined'')"
proof (cases "split_on 61 (trim segment)")
  case Nil
  then show ?thesis by (simp add: segment_value_def)
next
  case (Cons k rest)
  show ?thesis
  proof (cases rest)
    case Nil
    with Cons show ?thesis by (simp add: segment_value_def)
  next
    case (Cons v more)
    with \<open>split_on 61 (trim segment) = k # rest\<close>
    have "v \<in> set (split_on 61 (trim segment))" by simp
    then have "set v \<subseteq> set (trim segment)" by (rule split_on_pieces)
    with trim_subset [of segment] have "set v \<subseteq> set segment" by auto
    with Cons \<open>split_on 61 (trim segment) = k # rest\<close> show ?thesis
      by (auto simp: segment_value_def)
  qed
qed

lemma segment_value_plain: "37 \<notin> set segment \<Longrightarrow> 37 \<notin> set (segment_value segment)"
  using segment_value_subset [of segment] by (auto simp: str_def)

lemma parse_segment_plain:
  assumes "37 \<notin> set segment"
  shows "parse_segment segment cookies =
           (if segment_key segment \<notin> set cookie_keys then Inr cookies
            else Inr (obj_set cookies (toCamelCase (segment_key segment))
                        (field_value (segment_key segment) (segment_value segment))))"
  using segment_value_plain [OF assms]
  by (simp add: parse_segment_eq decodeURIComponent_plain)

lemma camel_key:
  assumes "k \<in> set cookie_keys"
  shows "toCamelCase k = str ''ltoken'' \<longleftrightarrow> k = str ''ltoken''"
    and "toCamelCase k = str ''ltuid'' \<longleftrightarrow> k = str ''ltuid''"
    and "toCamelCase k = str ''accountId'' \<longleftrightarrow> k = str ''account_id''"
  using assms by (auto simp: cookie_keys_def toCamelCase_keys) (simp_all add: str_def)

lemma parse_segment_other:
  assumes "parse_segment segment cookies = Inr cookies'"
    and "segment_key segment \<in> set cookie_keys \<longrightarrow> toCamelCase (segment_key segment) \<noteq> name"
  shows "obj_get cookies' name = obj_get cookies name"
  using assms
  by (auto simp: parse_segment_eq obj_get_obj_set split: if_splits sum.splits)

lemma parse_segments_other:
  assumes "parse_segments segments cookies = Inr cookies'"
    and "\<forall>segment\<in>set segments.
           segment_key segment \<in> set cookie_keys \<longrightarrow> toCamelCase (segment_key segment) \<noteq> name"
  shows "obj_get cookies' name = obj_get cookies name"
  using assms
proof (induction segments arbitrary: cookies)
  case Nil
  then show ?case by simp
next
  case (Cons segment segments)
  from Cons.prems(1) obtain c where c: "parse_segment segment cookies = Inr c"
    and r: "parse_segments segments c = Inr cookies'"
    by (auto split: sum.splits)
  have "obj_get c name = obj_get cookies name"
    by (rule parse_segment_other [OF c]) (use Cons.prems(2) in simp)
  moreover have "obj_get cookies' name = obj_get c name"
    by (rule Cons.IH [OF r]) (use Cons.prems(2) in simp)
  ultimately show ?case by simp
qed

lemma parse_segments_plain:
  assumes "\<forall>segment\<in>set segments. 37 \<notin> set segment"
  shows "\<exists>cookies'. parse_segments segments cookies = Inr cookies'"
  using assms
  by (induction segments arbitrary: cookies) (simp_all add: parse_segment_plain)

subsection \<open>A cookie string without its required keys\<close>

text \<open>
  C6, as stated, fails: this cookie string has no ltuid key, and it is parsed, with the
  ltuid taken from account_id.
\<close>

theorem parseCookieString_without_ltuid:
  "str ''ltuid'' \<notin> set (cookie_string_keys (str ''ltoken=abc; account_id=123''))
   \<and> parseCookieString (str ''ltoken=abc; account_id=123'') =
       Inr [(str ''ltoken'', Str (str ''abc'')), (str ''accountId'', Num 123),
            (str ''ltuid'', Num 123)]"
  by (simp add: cookie_string_keys_def segment_key_def parseCookieString_def parse_segment_def
        trim_def is_white_space_def cookie_keys_def decodeURIComponent_def prepend_def
        toCamelCase_def capitalize_def toUpperCase_unit_def parseInt_def trimStart_def
        is_digit_def digits_value_def obj_get_def Let_def str_def)

text \<open>
  C6, amended. A cookie string in which the key ltoken is absent, or in which the keys
  ltuid and account_id are both absent, is never parsed: parseCookieString throws the
  HoyolabError for a missing key, unless the value of one of the five known keys is not
  valid percent-encoding, which throws a URIError first. A key is present when it is what
  stands before the first equals sign of a trimmed segment.
\<close>

theorem parseCookieString_missing_key:
  assumes "str ''ltoken'' \<notin> set (cookie_string_keys s)
           \<or> (str ''ltuid'' \<notin> set (cookie_string_keys s)
               \<and> str ''account_id'' \<notin> set (cookie_string_keys s))"
  shows "(parseCookieString s = Inl key_missing \<or> parseCookieString s = Inl URIError)
         \<and> (37 \<notin> set s \<longrightarrow> parseCookieString s = Inl key_missing)"
proof -
  let ?segs = "split_on 59 s"
  have parsed: "parseCookieString s = Inl key_missing"
    if c: "parse_segments ?segs [] = Inr cookies" for cookies
  proof -
    have absent: "obj_get cookies name = Undefined"
      if "\<forall>segment\<in>set ?segs.
            segment_key segment \<in> set cookie_keys \<longrightarrow> toCamelCase (segment_key segment) \<noteq> name"
      for name
      using parse_segments_other [OF c that] by simp
    have missing: "obj_get cookies (toCamelCase k) = Undefined"
      if "k \<notin> set (cookie_string_keys s)" and "k \<in> set cookie_keys" for k
    proof (rule absent, intro ballI impI)
      fix segment
      assume "segment \<in> set ?segs" and "segment_key segment \<in> set cookie_keys"
      with that(1) have "segment_key segment \<noteq> k"
        by (auto simp: cookie_string_keys_def)
      with that(2) \<open>segment_key segment \<in> set cookie_keys\<close>
      show "toCamelCase (segment_key segment) \<noteq> toCamelCase k"
        by (auto simp: cookie_keys_def toCamelCase_keys) (simp_all add: str_def)
    qed
    have keys: "str ''ltoken'' \<in> set cookie_keys" "str ''ltuid'' \<in> set cookie_keys"
      "str ''account_id'' \<in> set cookie_keys"
      by (simp_all add: cookie_keys_def)
    from assms show ?thesis
    proof
      assume "str ''ltoken'' \<notin> set (cookie_string_keys s)"
      from missing [OF this keys(1)]
      have "obj_get cookies (str ''ltoken'') = Undefined"
        by (simp add: toCamelCase_keys)
      then show ?thesis
        by (simp add: parseCookieString_def c Let_def obj_get_obj_set str_def)
    next
      assume a: "str ''ltuid'' \<notin> set (cookie_string_keys s)
                 \<and> str ''account_id'' \<notin> set (cookie_string_keys s)"
      from missing [OF conjunct1 [OF a] keys(2)]
      have "obj_get cookies (str ''ltuid'') = Undefined"
        by (simp add: toCamelCase_keys)
      moreover from missing [OF conjunct2 [OF a] keys(3)]
      have "obj_get cookies (str ''accountId'') = Undefined"
        by (simp add: toCamelCase_keys)
      ultimately show ?thesis
        by (simp add: parseCookieString_def c Let_def)
    qed
  qed
  have thrown: "parseCookieString s = Inl URIError"
    if "parse_segments ?segs [] = Inl e" for e
    using that parse_segments_error [OF that] by (simp add: parseCookieString_def)
  have plain: "\<exists>cookies. parse_segments ?segs [] = Inr cookies" if "37 \<notin> set s"
  proof (rule parse_segments_plain)
    show "\<forall>segment\<in>set ?segs. 37 \<notin> set segment"
      using split_on_pieces [of _ 59 s] that by auto
  qed
  show ?thesis
  proof (cases "parse_segments ?segs []")
    case (Inl e)
    with thrown plain show ?thesis by auto
  next
    case (Inr cookies)
    with parsed show ?thesis by simp
  qed
qed

theorem parseCookieString_missing_key_witness:
  "str ''ltoken'' \<notin> set (cookie_string_keys (str ''ltuid=123; mi18nLang=en-us''))
   \<and> 37 \<notin> set (str ''ltuid=123; mi18nLang=en-us'')
   \<and> parseCookieString (str ''ltuid=123; mi18nLang=en-us'') =
       Inl (HoyolabError (str ''Cookie key ltuid or ltoken doesnt exist !''))"
proof -
  have a: "str ''ltoken'' \<notin> set (cookie_string_keys (str ''ltuid=123; mi18nLang=en-us''))"
    by (simp add: cookie_string_keys_def segment_key_def trim_def is_white_space_def str_def)
  have b: "37 \<notin> set (str ''ltuid=123; mi18nLang=en-us'')"
    by (simp add: str_def)
  from parseCookieString_missing_key [of "str ''ltuid=123; mi18nLang=en-us''"] a b
  have "parseCookieString (str ''ltuid=123; mi18nLang=en-us'') = Inl key_missing"
    by simp
  with a b show ?thesis by (simp add: key_missing_def)
qed

subsection \<open>Serializing a cookie\<close>





subsection \<open>The object that parseCookieString returns\<close>

lemma obj_set_subset: "set (obj_set c k v) \<subseteq> insert (k, v) (set c)"
  by (induction c) (auto split: if_splits)

lemma obj_set_fst: "fst ` set (obj_set c k v) = insert k (fst ` set c)"
  by (induction c) (force split: if_splits)+

lemma obj_set_distinct: "distinct (map fst c) \<Longrightarrow> distinct (map fst (obj_set c k v))"
proof (induction c)
  case Nil
  then show ?case by simp
next
  case (Cons e c)
  then show ?case
    using obj_set_fst [of c k v] by (cases e) auto
qed

lemma obj_get_entry: "distinct (map fst c) \<Longrightarrow> (k, v) \<in> set c \<Longrightarrow> obj_get c k = v"
  by (simp add: obj_get_def)

lemma obj_get_truthy_entry: "truthy (obj_get c k) \<Longrightarrow> (k, obj_get c k) \<in> set c"
  by (auto simp: obj_get_def dest: map_of_SomeD split: option.splits)

lemma parseLang_enum: "parseLang l \<in> set LanguageEnum"
  by (simp add: parseLang_def) (simp add: LanguageEnum_def)

lemma parseInt_number: "parseInt s = NaN \<or> (\<exists>i. parseInt s = Num i)"
  by (simp add: parseInt_def Let_def case_prod_unfold)

lemma field_value_typed:
  assumes "k \<in> set cookie_keys"
  shows "cookie_field (toCamelCase k) (field_value k d)"
proof -
  from assms consider "k = str ''ltoken''" | "k = str ''ltuid''" | "k = str ''account_id''"
    | "k = str ''cookie_token''" | "k = str ''mi18nLang''"
    by (auto simp: cookie_keys_def)
  then show ?thesis
  proof cases
    case 1
    then show ?thesis by (simp add: field_value_def toCamelCase_keys) (simp add: str_def)
  next
    case 2
    then show ?thesis
      using parseInt_number [of d] by (auto simp: field_value_def toCamelCase_keys)
  next
    case 3
    then show ?thesis
      using parseInt_number [of d] by (auto simp: field_value_def toCamelCase_keys)
  next
    case 4
    then show ?thesis by (simp add: field_value_def toCamelCase_keys) (simp add: str_def)
  next
    case 5
    then show ?thesis
      by (simp add: field_value_def toCamelCase_keys parseLang_enum) (simp add: str_def)
  qed
qed

lemma parse_segment_typed:
  assumes "parse_segment segment c = Inr c'"
    and "distinct (map fst c)" and "\<forall>(k, v)\<in>set c. cookie_field k v"
  shows "distinct (map fst c') \<and> (\<forall>(k, v)\<in>set c'. cookie_field k v)"
proof (cases "segment_key segment \<in> set cookie_keys")
  case False
  with assms show ?thesis by (simp add: parse_segment_eq)
next
  case True
  with assms(1) obtain d where
    c': "c' = obj_set c (toCamelCase (segment_key segment)) (field_value (segment_key segment) d)"
    by (auto simp: parse_segment_eq split: sum.splits)
  have "cookie_field (toCamelCase (segment_key segment)) (field_value (segment_key segment) d)"
    using True by (rule field_value_typed)
  with assms(3) have "\<forall>(k, v)\<in>set c'. cookie_field k v"
    unfolding c' using obj_set_subset [of c] by fastforce
  with assms(2) show ?thesis by (simp add: c' obj_set_distinct)
qed

lemma parse_segments_typed:
  assumes "parse_segments segments c = Inr c'"
    and "distinct (map fst c)" and "\<forall>(k, v)\<in>set c. cookie_field k v"
  shows "distinct (map fst c') \<and> (\<forall>(k, v)\<in>set c'. cookie_field k v)"
  using assms
proof (induction segments arbitrary: c)
  case Nil
  then show ?case by simp
next
  case (Cons segment segments)
  from Cons.prems(1) obtain c1 where c1: "parse_segment segment c = Inr c1"
    and r: "parse_segments segments c1 = Inr c'"
    by (auto split: sum.splits)
  from parse_segment_typed [OF c1 Cons.prems(2,3)]
  show ?case by (intro Cons.IH [OF r]) simp_all
qed

lemma truthy_number:
  assumes "\<forall>(k, v)\<in>set c. cookie_field k v" and "truthy (obj_get c k)"
    and "k = str ''ltuid'' \<or> k = str ''accountId''"
  shows "\<exists>i. obj_get c k = Num i \<and> i \<noteq> 0"
proof -
  from assms(2) have "(k, obj_get c k) \<in> set c" by (rule obj_get_truthy_entry)
  with assms(1) have "cookie_field k (obj_get c k)" by auto
  with assms(2,3) show ?thesis
    by (cases "obj_get c k") (auto simp: str_def)
qed

lemma parseCookieString_typed:
  assumes "parseCookieString s = Inr c"
  shows "distinct (map fst c) \<and> (\<forall>(k, v)\<in>set c. cookie_field k v)
         \<and> truthy (obj_get c (str ''ltoken'')) \<and> truthy (obj_get c (str ''ltuid''))
         \<and> truthy (obj_get c (str ''accountId''))"
proof -
  from assms obtain c0 where c0: "parse_segments (split_on 59 s) [] = Inr c0"
    by (auto simp: parseCookieString_def split: sum.splits)
  from parse_segments_typed [OF c0]
  have d0: "distinct (map fst c0)" and t0: "\<forall>(k, v)\<in>set c0. cookie_field k v"
    by simp_all
  let ?u = "obj_get c0 (str ''ltuid'')"
  let ?a = "obj_get c0 (str ''accountId'')"
  have ne: "str ''ltuid'' \<noteq> str ''accountId''" "str ''ltoken'' \<noteq> str ''accountId''"
    "str ''ltoken'' \<noteq> str ''ltuid''"
    by (simp_all add: str_def)
  consider (derive_a) "truthy ?u" "\<not> truthy ?a"
    | (derive_u) "\<not> truthy ?u" "truthy ?a"
    | (keep) "truthy ?u = truthy ?a"
    by auto
  then show ?thesis
  proof cases
    case derive_a
    with assms c0 have c: "c = obj_set c0 (str ''accountId'') ?u"
      and ok: "truthy (obj_get c (str ''ltoken''))" "truthy (obj_get c (str ''ltuid''))"
      by (auto simp: parseCookieString_def Let_def split: if_splits)
    from truthy_number [OF t0 derive_a(1)] obtain i where i: "?u = Num i" "i \<noteq> 0" by auto
    have "\<forall>(k, v)\<in>set c. cookie_field k v"
      unfolding c using t0 obj_set_subset [of c0 "str ''accountId''" ?u] i by fastforce
    moreover have "truthy (obj_get c (str ''accountId''))"
      by (simp add: c obj_get_obj_set i)
    ultimately show ?thesis using ok d0 by (simp add: c obj_set_distinct)
  next
    case derive_u
    with assms c0 have c: "c = obj_set c0 (str ''ltuid'') ?a"
      and ok: "truthy (obj_get c (str ''ltoken''))" "truthy (obj_get c (str ''ltuid''))"
      by (auto simp: parseCookieString_def Let_def split: if_splits)
    from truthy_number [OF t0 derive_u(2)] obtain i where i: "?a = Num i" "i \<noteq> 0" by auto
    have "\<forall>(k, v)\<in>set c. cookie_field k v"
      unfolding c using t0 obj_set_subset [of c0 "str ''ltuid''" ?a] i by fastforce
    moreover have "truthy (obj_get c (str ''accountId''))"
      using derive_u(2) ne by (simp add: c obj_get_obj_set)
    ultimately show ?thesis using ok d0 by (simp add: c obj_set_distinct)
  next
    case keep
    with assms c0 have c: "c = c0"
      and ok: "truthy (obj_get c (str ''ltoken''))" "truthy (obj_get c (str ''ltuid''))"
      by (auto simp: parseCookieString_def Let_def split: if_splits)
    with keep have "truthy (obj_get c (str ''accountId''))" by simp
    with ok d0 t0 show ?thesis by (simp add: c)
  qed
qed

subsection \<open>Parsing what parseCookie has written\<close>

lemmas cookie_eval =
  parseCookieString_def parse_segment_def trim_def is_white_space_def cookie_keys_def
  decodeURIComponent_def prepend_def continuation_def scalar_value_def utf16_def hex_value_def
  toCamelCase_def capitalize_def toUpperCase_unit_def parseInt_def trimStart_def is_digit_def
  digits_value_def obj_get_def parseLang_def LanguageEnum_def key_missing_def Let_def

lemma toString_5: "toString_int 5 = str ''5''"
  by (simp add: toString_int_def digits_of.simps str_def)

lemma parseCookie_percent:
  "fst (parseCookie percent_cookie) = str ''ltoken=a%41; ltuid=5; account_id=5''"
  by (simp add: parseCookie_def percent_cookie_def render_entry_def toSnakeCase_keys
        toString_5 obj_get_def Let_def)
     (simp add: str_def)

text \<open>
  C5, as stated, fails: this cookie string has both keys and is parsed; serialized and
  parsed again, its ltoken is another string, since the percent-decoding is applied a
  second time to a value that is written back without encoding.
\<close>

theorem cookie_round_trip_decodes_twice:
  "parseCookieString (str ''ltoken=a%2541; ltuid=5'') = Inr percent_cookie
   \<and> obj_get percent_cookie (str ''ltoken'') = Str (str ''a%41'')
   \<and> parseCookieString (fst (parseCookie percent_cookie)) =
       Inr [(str ''ltoken'', Str (str ''aA'')), (str ''ltuid'', Num 5),
            (str ''accountId'', Num 5)]"
proof -
  have a: "parseCookieString (str ''ltoken=a%2541; ltuid=5'') = Inr percent_cookie"
    by (simp add: cookie_eval percent_cookie_def str_def)
  have b: "obj_get percent_cookie (str ''ltoken'') = Str (str ''a%41'')"
    by (simp add: percent_cookie_def obj_get_def)
  have c: "parseCookieString (str ''ltoken=a%41; ltuid=5; account_id=5'') =
       Inr [(str ''ltoken'', Str (str ''aA'')), (str ''ltuid'', Num 5),
            (str ''accountId'', Num 5)]"
    by (simp add: cookie_eval str_def)
  from a b c show ?thesis by (simp only: parseCookie_percent)
qed


lemma parse_segment_pad: "parse_segment (32 # segment) c = parse_segment segment c"
  by (simp add: parse_segment_def trim_pad)

lemma parse_segments_pad: "parse_segments (map ((#) 32) segments) c = parse_segments segments c"
  by (induction segments arbitrary: c) (simp_all add: parse_segment_pad split: sum.splits)

lemma parse_segments_joined:
  assumes "segments \<noteq> []" and "\<forall>segment\<in>set segments. 59 \<notin> set segment"
  shows "parse_segments (split_on 59 (join (str ''; '') segments)) c = parse_segments segments c"
proof -
  have "str ''; '' = [59, 32]" by (simp add: str_def)
  with split_on_join [OF assms]
  have "split_on 59 (join (str ''; '') segments) = hd segments # map ((#) 32) (tl segments)"
    by simp
  moreover obtain x xs where "segments = x # xs" using assms(1) by (cases segments) auto
  ultimately show ?thesis by (simp add: parse_segments_pad split: sum.splits)
qed

lemma parse_segments_append:
  "parse_segments (a @ b) c =
     (case parse_segments a c of Inl e \<Rightarrow> Inl e | Inr c1 \<Rightarrow> parse_segments b c1)"
  by (induction a arbitrary: c) (simp_all split: sum.splits)

lemma key_value_segment:
  assumes "\<not> is_white_space k" and "61 \<notin> set (k # ks)"
  shows "segment_key (k # ks @ 61 # v) = k # ks"
    and "61 \<notin> set v \<Longrightarrow> v \<noteq> [] \<Longrightarrow> \<not> is_white_space (last v) \<Longrightarrow>
         segment_value (k # ks @ 61 # v) = v"
proof -
  note s = split_key_value [OF assms, of v]
  show "segment_key (k # ks @ 61 # v) = k # ks"
    by (simp add: segment_key_def s)
  assume "61 \<notin> set v" and "v \<noteq> []" and "\<not> is_white_space (last v)"
  then have "split_on 61 (rstrip v) = [v]"
    by (simp add: rstrip_id split_on_no_sep)
  then show "segment_value (k # ks @ 61 # v) = v"
    by (simp add: segment_value_def s)
qed

lemma ltoken_segment:
  assumes "t \<noteq> []" and "37 \<notin> set t" and "61 \<notin> set t" and "\<not> is_white_space (last t)"
  shows "parse_segment (str ''ltoken'' @ str ''='' @ t) c = Inr (obj_set c (str ''ltoken'') (Str t))"
proof -
  let ?seg = "str ''ltoken'' @ str ''='' @ t"
  have f: "?seg = 108 # [116, 111, 107, 101, 110] @ 61 # t" by (simp add: str_def)
  have w: "\<not> is_white_space 108" "61 \<notin> set (108 # [116, 111, 107, 101, 110 :: nat])"
    by (simp_all add: is_white_space_def)
  have k: "segment_key ?seg = str ''ltoken''"
    unfolding f using key_value_segment(1) [OF w, of t] by (simp add: str_def)
  have v: "segment_value ?seg = t"
    unfolding f using key_value_segment(2) [OF w, of t] assms by simp
  have p: "37 \<notin> set ?seg" using assms(2) by (simp add: str_def)
  have "field_value (str ''ltoken'') t = Str t"
    by (simp add: field_value_def str_def)
  then show ?thesis
    by (simp add: parse_segment_plain [OF p] k v toCamelCase_keys cookie_keys_def)
qed

lemma ltuid_segment:
  "parse_segment (str ''ltuid'' @ str ''='' @ toString_int n) c =
     Inr (obj_set c (str ''ltuid'') (Num n))"
proof -
  let ?t = "toString_int n"
  let ?seg = "str ''ltuid'' @ str ''='' @ ?t"
  have f: "?seg = 108 # [116, 117, 105, 100] @ 61 # ?t" by (simp add: str_def)
  have w: "\<not> is_white_space 108" "61 \<notin> set (108 # [116, 117, 105, 100 :: nat])"
    by (simp_all add: is_white_space_def)
  have c: "61 \<notin> set ?t" "37 \<notin> set ?t"
    using toString_int_chars [of 61 n] toString_int_chars [of 37 n]
    by (auto simp: is_digit_def)
  have k: "segment_key ?seg = str ''ltuid''"
    unfolding f using key_value_segment(1) [OF w, of ?t] by (simp add: str_def)
  have v: "segment_value ?seg = ?t"
    unfolding f using key_value_segment(2) [OF w, of ?t] c toString_int_not_Nil toString_int_last
    by simp
  have p: "37 \<notin> set ?seg" using c(2) by (simp add: str_def)
  have "field_value (str ''ltuid'') ?t = Num n"
    by (simp add: field_value_def parseInt_toString_int)
  then show ?thesis
    by (simp add: parse_segment_plain [OF p] k v toCamelCase_keys cookie_keys_def)
qed

lemma other_segment:
  assumes "37 \<notin> set segment"
    and "segment_key segment = str ''account_id'' \<or> segment_key segment = str ''cookie_token''
         \<or> segment_key segment = str ''mi18nLang''"
  shows "\<exists>c'. parse_segment segment c = Inr c'
           \<and> obj_get c' (str ''ltoken'') = obj_get c (str ''ltoken'')
           \<and> obj_get c' (str ''ltuid'') = obj_get c (str ''ltuid'')"
  using assms(2)
  by (auto simp: parse_segment_plain [OF assms(1)] toCamelCase_keys obj_get_obj_set)
     (simp_all add: str_def)


lemma LanguageEnum_chars:
  assumes "x \<in> set LanguageEnum"
  shows "x \<noteq> []" and "37 \<notin> set x" and "59 \<notin> set x"
  using assms by (auto simp: LanguageEnum_def str_def)

lemma keyed_segment:
  assumes "k = str ''account_id'' \<or> k = str ''cookie_token'' \<or> k = str ''mi18nLang''"
  shows "segment_key (k @ str ''='' @ v) = k"
proof -
  have w: "\<not> is_white_space 97" "\<not> is_white_space 99" "\<not> is_white_space 109"
    by (simp_all add: is_white_space_def)
  from assms show ?thesis
  proof (elim disjE)
    assume k: "k = str ''account_id''"
    have "segment_key (97 # [99, 99, 111, 117, 110, 116, 95, 105, 100] @ 61 # v) =
            97 # [99, 99, 111, 117, 110, 116, 95, 105, 100]"
      by (rule key_value_segment(1)) (simp_all add: w)
    then show ?thesis by (simp add: k str_def)
  next
    assume k: "k = str ''cookie_token''"
    have "segment_key (99 # [111, 111, 107, 105, 101, 95, 116, 111, 107, 101, 110] @ 61 # v) =
            99 # [111, 111, 107, 105, 101, 95, 116, 111, 107, 101, 110]"
      by (rule key_value_segment(1)) (simp_all add: w)
    then show ?thesis by (simp add: k str_def)
  next
    assume k: "k = str ''mi18nLang''"
    have "segment_key (109 # [105, 49, 56, 110, 76, 97, 110, 103] @ 61 # v) =
            109 # [105, 49, 56, 110, 76, 97, 110, 103]"
      by (rule key_value_segment(1)) (simp_all add: w)
    then show ?thesis by (simp add: k str_def)
  qed
qed

lemma rendered_other:
  assumes "k = str ''account_id'' \<or> k = str ''cookie_token'' \<or> k = str ''mi18nLang''"
    and "37 \<notin> set v"
  shows "\<exists>c'. parse_segment (k @ str ''='' @ v) c = Inr c'
           \<and> obj_get c' (str ''ltoken'') = obj_get c (str ''ltoken'')
           \<and> obj_get c' (str ''ltuid'') = obj_get c (str ''ltuid'')"
proof (rule other_segment)
  show "37 \<notin> set (k @ str ''='' @ v)"
    using assms by (auto simp: str_def)
  show "segment_key (k @ str ''='' @ v) = str ''account_id''
        \<or> segment_key (k @ str ''='' @ v) = str ''cookie_token''
        \<or> segment_key (k @ str ''='' @ v) = str ''mi18nLang''"
    using assms(1) by (simp add: keyed_segment [OF assms(1)])
qed

lemma parse_rendered_entry:
  assumes "cookie_field k v"
    and "k = str ''ltoken'' \<longrightarrow> v = Str t"
    and "k = str ''ltuid'' \<longrightarrow> v = Num n"
    and "\<forall>x. k = str ''cookieToken'' \<and> v = Str x \<longrightarrow> 37 \<notin> set x"
    and "t \<noteq> []" and "37 \<notin> set t" and "61 \<notin> set t" and "\<not> is_white_space (last t)"
    and "n \<noteq> 0"
  shows "\<exists>c'. parse_segments (render_entry (k, v)) c = Inr c'
           \<and> obj_get c' (str ''ltoken'') =
               (if k = str ''ltoken'' then Str t else obj_get c (str ''ltoken''))
           \<and> obj_get c' (str ''ltuid'') =
               (if k = str ''ltuid'' then Num n else obj_get c (str ''ltuid''))"
proof -
  have ne: "str ''ltoken'' \<noteq> str ''ltuid''" "str ''ltoken'' \<noteq> str ''cookieToken''"
    "str ''ltoken'' \<noteq> str ''accountId''" "str ''ltoken'' \<noteq> str ''mi18nLang''"
    "str ''ltuid'' \<noteq> str ''cookieToken''" "str ''ltuid'' \<noteq> str ''accountId''"
    "str ''ltuid'' \<noteq> str ''mi18nLang''" "str ''cookieToken'' \<noteq> str ''accountId''"
    "str ''cookieToken'' \<noteq> str ''mi18nLang''" "str ''mi18nLang'' \<noteq> str ''accountId''"
    by (simp_all add: str_def)
  have falsy: ?thesis if "\<not> truthy v" and "k \<noteq> str ''ltoken''" and "k \<noteq> str ''ltuid''"
    using that by (simp add: render_entry_def)
  have other: ?thesis
    if "truthy v" and "k \<noteq> str ''ltoken''" and "k \<noteq> str ''ltuid''"
      and "render_entry (k, v) = [k' @ str ''='' @ x]"
      and "k' = str ''account_id'' \<or> k' = str ''cookie_token'' \<or> k' = str ''mi18nLang''"
      and "37 \<notin> set x" for k' x
    using rendered_other [OF that(5,6), of c] that(2,3,4) by auto
  show ?thesis
  proof (cases v)
    case (Str x)
    with assms(1) consider "k = str ''ltoken''" | "k = str ''cookieToken''"
      | "k = str ''mi18nLang''" "x \<in> set LanguageEnum"
      by auto
    then show ?thesis
    proof cases
      case 1
      with Str assms(2) have x: "x = t" by simp
      have "render_entry (k, v) = [str ''ltoken'' @ str ''='' @ t]"
        using 1 Str x assms(5) ne by (simp add: render_entry_def)
      then show ?thesis
        using ltoken_segment [OF assms(5,6,7,8), of c] 1 ne
        by (simp add: obj_get_obj_set)
    next
      case 2
      show ?thesis
      proof (cases "x = []")
        case True
        with Str 2 ne show ?thesis by (intro falsy) simp_all
      next
        case False
        have "render_entry (k, v) = [str ''cookie_token'' @ str ''='' @ x]"
          using 2 Str False by (simp add: render_entry_def toSnakeCase_keys)
        moreover have "37 \<notin> set x" using assms(4) 2 Str by simp
        ultimately show ?thesis
          using 2 Str False ne by (intro other [of "str ''cookie_token''" x]) simp_all
      qed
    next
      case 3
      have "render_entry (k, v) = [str ''mi18nLang'' @ str ''='' @ x]"
        using 3 Str LanguageEnum_chars(1) [OF 3(2)] ne by (simp add: render_entry_def)
      then show ?thesis
        using 3 Str LanguageEnum_chars [OF 3(2)] ne
        by (intro other [of "str ''mi18nLang''" x]) simp_all
    qed
  next
    case (Num i)
    with assms(1) consider "k = str ''ltuid''" | "k = str ''accountId''" by auto
    then show ?thesis
    proof cases
      case 1
      with Num assms(3) have i: "i = n" by simp
      have "render_entry (k, v) = [str ''ltuid'' @ str ''='' @ toString_int n]"
        using 1 Num i assms(9) ne by (simp add: render_entry_def)
      then show ?thesis
        using ltuid_segment [of n c] 1 ne by (simp add: obj_get_obj_set)
    next
      case 2
      show ?thesis
      proof (cases "i = 0")
        case True
        with Num 2 ne show ?thesis by (intro falsy) simp_all
      next
        case False
        have "render_entry (k, v) = [str ''account_id'' @ str ''='' @ toString_int i]"
          using 2 Num False by (simp add: render_entry_def toSnakeCase_keys)
        moreover have "37 \<notin> set (toString_int i)"
          using toString_int_chars [of 37 i] by (auto simp: is_digit_def)
        ultimately show ?thesis
          using 2 Num False ne by (intro other [of "str ''account_id''" "toString_int i"]) simp_all
      qed
    qed
  next
    case NaN
    with assms(1,3) have "k = str ''accountId''" by auto
    with NaN ne show ?thesis by (intro falsy) simp_all
  qed (use assms(1) in simp_all)
qed

lemma parse_rendered:
  assumes "\<forall>(k, v)\<in>set es. cookie_field k v"
    and "\<forall>v. (str ''ltoken'', v) \<in> set es \<longrightarrow> v = Str t"
    and "\<forall>v. (str ''ltuid'', v) \<in> set es \<longrightarrow> v = Num n"
    and "\<forall>x. (str ''cookieToken'', Str x) \<in> set es \<longrightarrow> 37 \<notin> set x"
    and "t \<noteq> []" and "37 \<notin> set t" and "61 \<notin> set t" and "\<not> is_white_space (last t)"
    and "n \<noteq> 0"
  shows "\<exists>c'. parse_segments (concat (map render_entry es)) c = Inr c'
           \<and> obj_get c' (str ''ltoken'') =
               (if str ''ltoken'' \<in> fst ` set es then Str t else obj_get c (str ''ltoken''))
           \<and> obj_get c' (str ''ltuid'') =
               (if str ''ltuid'' \<in> fst ` set es then Num n else obj_get c (str ''ltuid''))"
  using assms(1-4)
proof (induction es arbitrary: c rule: rev_induct)
  case Nil
  then show ?case by simp
next
  case (snoc e es)
  obtain k v where e: "e = (k, v)" by (cases e)
  from snoc.IH [of c] snoc.prems obtain c1 where
    c1: "parse_segments (concat (map render_entry es)) c = Inr c1"
      "obj_get c1 (str ''ltoken'') =
         (if str ''ltoken'' \<in> fst ` set es then Str t else obj_get c (str ''ltoken''))"
      "obj_get c1 (str ''ltuid'') =
         (if str ''ltuid'' \<in> fst ` set es then Num n else obj_get c (str ''ltuid''))"
    by auto
  have "cookie_field k v" "k = str ''ltoken'' \<longrightarrow> v = Str t" "k = str ''ltuid'' \<longrightarrow> v = Num n"
    "\<forall>x. k = str ''cookieToken'' \<and> v = Str x \<longrightarrow> 37 \<notin> set x"
    using snoc.prems e by auto
  from parse_rendered_entry [OF this assms(5-9), of c1] obtain c2 where
    c2: "parse_segments (render_entry (k, v)) c1 = Inr c2"
      "obj_get c2 (str ''ltoken'') =
         (if k = str ''ltoken'' then Str t else obj_get c1 (str ''ltoken''))"
      "obj_get c2 (str ''ltuid'') =
         (if k = str ''ltuid'' then Num n else obj_get c1 (str ''ltuid''))"
    by auto
  have "parse_segments (concat (map render_entry (es @ [e]))) c = Inr c2"
    by (simp add: parse_segments_append c1(1) c2(1) e)
  with c1(2,3) c2(2,3) show ?case by (auto simp: e)
qed


lemma rendered_no_semicolon:
  assumes "cookie_field k v"
    and "k = str ''ltoken'' \<longrightarrow> v = Str t" and "59 \<notin> set t"
    and "\<forall>x. k = str ''cookieToken'' \<and> v = Str x \<longrightarrow> 59 \<notin> set x"
    and "segment \<in> set (render_entry (k, v))"
  shows "59 \<notin> set segment"
proof (cases v)
  case (Str x)
  with assms(1) consider "k = str ''ltoken''" | "k = str ''cookieToken''"
    | "k = str ''mi18nLang''" "x \<in> set LanguageEnum"
    by auto
  then show ?thesis
  proof cases
    case 1
    with assms(2,3,5) Str show ?thesis
      by (auto simp: render_entry_def split: if_splits) (simp_all add: str_def)
  next
    case 2
    with assms(4,5) Str show ?thesis
      by (auto simp: render_entry_def toSnakeCase_keys split: if_splits) (simp_all add: str_def)
  next
    case 3
    with assms(5) Str LanguageEnum_chars(3) [OF 3(2)] show ?thesis
      by (auto simp: render_entry_def split: if_splits) (simp_all add: str_def)
  qed
next
  case (Num i)
  have "59 \<notin> set (toString_int i)"
    using toString_int_chars [of 59 i] by (auto simp: is_digit_def)
  with assms(1,5) Num show ?thesis
    by (auto simp: render_entry_def toSnakeCase_keys split: if_splits) (simp_all add: str_def)
qed (use assms(1,5) in \<open>simp_all add: render_entry_def\<close>)

lemma parseCookieString_of_segments:
  assumes "parse_segments (split_on 59 s) [] = Inr c"
    and "truthy (obj_get c (str ''ltoken''))" and "truthy (obj_get c (str ''ltuid''))"
  shows "\<exists>c'. parseCookieString s = Inr c'
           \<and> obj_get c' (str ''ltoken'') = obj_get c (str ''ltoken'')
           \<and> obj_get c' (str ''ltuid'') = obj_get c (str ''ltuid'')"
proof -
  have ne: "str ''ltoken'' \<noteq> str ''accountId''" "str ''ltuid'' \<noteq> str ''accountId''"
    by (simp_all add: str_def)
  show ?thesis
    using assms ne by (simp add: parseCookieString_def Let_def obj_get_obj_set)
qed

text \<open>
  C5, amended. For every cookie string that parseCookieString accepts, with an ltoken
  that contains no percent sign, no semicolon and no equals sign and does not end in
  white space, with a cookie_token (if any) that contains no percent sign and no
  semicolon, and with an ltuid that is a safe integer: serializing the result with
  parseCookie and parsing the string again succeeds, and gives the same ltoken and the
  same ltuid.
\<close>

theorem cookie_round_trip:
  assumes "parseCookieString s = Inr c"
    and "obj_get c (str ''ltoken'') = Str t"
    and "37 \<notin> set t" and "59 \<notin> set t" and "61 \<notin> set t" and "\<not> is_white_space (last t)"
    and "\<forall>x. obj_get c (str ''cookieToken'') = Str x \<longrightarrow> 37 \<notin> set x \<and> 59 \<notin> set x"
    and "obj_get c (str ''ltuid'') = Num n" and "\<bar>n\<bar> \<le> MAX_SAFE_INTEGER"
  shows "\<exists>c'. parseCookieString (fst (parseCookie c)) = Inr c'
           \<and> obj_get c' (str ''ltoken'') = obj_get c (str ''ltoken'')
           \<and> obj_get c' (str ''ltuid'') = obj_get c (str ''ltuid'')"
proof -
  from parseCookieString_typed [OF assms(1)]
  have d: "distinct (map fst c)" and ty: "\<forall>(k, v)\<in>set c. cookie_field k v"
    and tr: "truthy (obj_get c (str ''ltoken''))" "truthy (obj_get c (str ''ltuid''))"
      "truthy (obj_get c (str ''accountId''))"
    by simp_all
  from tr assms(2,8) have t: "t \<noteq> []" and n: "n \<noteq> 0" by simp_all
  have e1: "\<forall>v. (str ''ltoken'', v) \<in> set c \<longrightarrow> v = Str t"
    using obj_get_entry [OF d] assms(2) by auto
  have e2: "\<forall>v. (str ''ltuid'', v) \<in> set c \<longrightarrow> v = Num n"
    using obj_get_entry [OF d] assms(8) by auto
  have e3: "\<forall>x. (str ''cookieToken'', Str x) \<in> set c \<longrightarrow> 37 \<notin> set x \<and> 59 \<notin> set x"
    using obj_get_entry [OF d] assms(7) by auto
  let ?segs = "concat (map render_entry c)"
  have ser: "fst (parseCookie c) = join (str ''; '') ?segs"
    using tr(3) by (simp add: parseCookie_def Let_def)
  have in1: "(str ''ltoken'', Str t) \<in> set c"
    using obj_get_truthy_entry [OF tr(1)] assms(2) by simp
  have in2: "(str ''ltuid'', Num n) \<in> set c"
    using obj_get_truthy_entry [OF tr(2)] assms(8) by simp
  have "render_entry (str ''ltoken'', Str t) \<noteq> []"
    using t by (simp add: render_entry_def)
  with in1 have nonempty: "?segs \<noteq> []" by force
  have semi: "\<forall>segment\<in>set ?segs. 59 \<notin> set segment"
  proof
    fix segment
    assume "segment \<in> set ?segs"
    then obtain k v where kv: "(k, v) \<in> set c" "segment \<in> set (render_entry (k, v))"
      by auto
    show "59 \<notin> set segment"
    proof (rule rendered_no_semicolon [OF _ _ assms(4) _ kv(2)])
      show "cookie_field k v" using ty kv(1) by auto
      show "k = str ''ltoken'' \<longrightarrow> v = Str t" using e1 kv(1) by auto
      show "\<forall>x. k = str ''cookieToken'' \<and> v = Str x \<longrightarrow> 59 \<notin> set x" using e3 kv(1) by auto
    qed
  qed
  have e3': "\<forall>x. (str ''cookieToken'', Str x) \<in> set c \<longrightarrow> 37 \<notin> set x"
    using e3 by simp
  have m1: "str ''ltoken'' \<in> fst ` set c" using in1 by (rule image_eqI [rotated]) simp
  have m2: "str ''ltuid'' \<in> fst ` set c" using in2 by (rule image_eqI [rotated]) simp
  from parse_rendered [OF ty e1 e2 e3' t assms(3,5,6) n, of "[]"]
  obtain c1 where c1: "parse_segments ?segs [] = Inr c1"
    "obj_get c1 (str ''ltoken'') = Str t" "obj_get c1 (str ''ltuid'') = Num n"
    unfolding if_P [OF m1] if_P [OF m2] by blast
  have "parse_segments (split_on 59 (fst (parseCookie c))) [] = Inr c1"
    unfolding ser using c1(1) by (simp add: parse_segments_joined [OF nonempty semi])
  from parseCookieString_of_segments [OF this] c1(2,3) t n
  show ?thesis by (simp add: assms(2,8))
qed

theorem cookie_round_trip_witness:
  "parseCookieString (str ''ltoken=abc; ltuid=123'') = Inr plain_cookie
   \<and> obj_get plain_cookie (str ''ltoken'') = Str (str ''abc'')
   \<and> obj_get plain_cookie (str ''ltuid'') = Num 123
   \<and> (\<exists>c'. parseCookieString (fst (parseCookie plain_cookie)) = Inr c'
          \<and> obj_get c' (str ''ltoken'') = Str (str ''abc'')
          \<and> obj_get c' (str ''ltuid'') = Num 123)"
proof -
  have a: "parseCookieString (str ''ltoken=abc; ltuid=123'') = Inr plain_cookie"
    by (simp add: cookie_eval plain_cookie_def str_def)
  have b: "obj_get plain_cookie (str ''ltoken'') = Str (str ''abc'')"
    "obj_get plain_cookie (str ''ltuid'') = Num 123"
    by (simp_all add: plain_cookie_def obj_get_def str_def)
  have c: "37 \<notin> set (str ''abc'')" "59 \<notin> set (str ''abc'')" "61 \<notin> set (str ''abc'')"
    "\<not> is_white_space (last (str ''abc''))"
    by (simp_all add: str_def is_white_space_def)
  have d: "\<forall>x. obj_get plain_cookie (str ''cookieToken'') = Str x \<longrightarrow> 37 \<notin> set x \<and> 59 \<notin> set x"
    by (simp add: plain_cookie_def obj_get_def str_def)
  have e: "\<bar>123\<bar> \<le> MAX_SAFE_INTEGER" by (simp add: MAX_SAFE_INTEGER_def)
  from cookie_round_trip [OF a b(1) c d b(2) e] a b show ?thesis by simp
qed

end
